theory Spec2Isabelle
  imports Main "HOL-Library.AList"
begin

section \<open>Python primitives used by wikitextparser.py\<close>

text \<open>
  Exceptions of the source become values. \<open>RuntimeError\<close> is the one exception the
  source raises itself (\<open>Section.title\<close> setter); the others are raised by the
  Python runtime (indexing a string or list out of range, a missing dictionary key,
  an attribute of \<open>None\<close>).
\<close>

datatype error = RuntimeError | IndexError | KeyError | AttributeError

text \<open>
  Slices \<open>xs[i:j]\<close>, \<open>xs[:j]\<close>, \<open>xs[i:]\<close> with Python's index normalisation:
  a negative index counts from the end, and every index is clamped to \<open>0..len\<close>.
\<close>

definition norm_index :: "nat \<Rightarrow> int \<Rightarrow> nat" where
  "norm_index n i = (if i < 0 then nat (max 0 (int n + i)) else min (nat i) n)"

definition py_slice :: "'a list \<Rightarrow> int \<Rightarrow> int \<Rightarrow> 'a list" where
  "py_slice xs i j =
     (let a = norm_index (length xs) i; b = norm_index (length xs) j
      in take (b - a) (drop a xs))"

definition py_slice_to :: "'a list \<Rightarrow> int \<Rightarrow> 'a list" where
  "py_slice_to xs j = take (norm_index (length xs) j) xs"

definition py_slice_from :: "'a list \<Rightarrow> int \<Rightarrow> 'a list" where
  "py_slice_from xs i = drop (norm_index (length xs) i) xs"

text \<open>Indexing \<open>xs[i]\<close>: negative indices count from the end, out of range raises.\<close>

definition py_index :: "'a list \<Rightarrow> int \<Rightarrow> error + 'a" where
  "py_index xs i =
     (if 0 \<le> i \<and> i < int (length xs) then Inr (xs ! nat i)
      else if i < 0 \<and> - int (length xs) \<le> i then Inr (xs ! nat (int (length xs) + i))
      else Inl IndexError)"

section \<open>The document: one buffer and the span table\<close>

text \<open>
  \<open>self._lststr\<close> is a one-element list holding the buffer, shared by all objects of
  a document; \<open>self._spans\<close> is a dictionary from a type key to a list of
  \<open>(start, end)\<close> pairs. The keys of the source are the strings \<open>'p'\<close>, \<open>'pf'\<close>,
  \<open>'t'\<close>, \<open>'wl'\<close>, \<open>'c'\<close>, \<open>'nw'\<close>, \<open>'el'\<close>, \<open>'s'\<close>, \<open>'a'\<close>, and
  \<open>'ta' + str(i)\<close>, \<open>'pfa' + str(i)\<close> for the arguments of template / parser
  function number \<open>i\<close>; they are the constructors of \<open>key\<close>. The dictionary is an
  association list in insertion order.
\<close>

type_synonym span = "int \<times> int"

datatype key =
  Key_p | Key_pf | Key_t | Key_wl | Key_c | Key_nw | Key_el | Key_s | Key_a
  | Key_ta int | Key_pfa int

type_synonym span_table = "(key \<times> span list) list"

record doc =
  lststr :: string
  spans :: span_table

text \<open>
  An object of the source is the document itself (class \<open>WikiText\<close>, whose span is
  the whole buffer) or an indexed object (\<open>_Indexed_Object\<close>: its span is
  \<open>self._spans[key][self._index]\<close>).
\<close>

datatype node = Root | Indexed key int

fun get_span :: "doc \<Rightarrow> node \<Rightarrow> error + span" where
  "get_span d Root = Inr (0, int (length (lststr d)))"
| "get_span d (Indexed k i) =
     (case map_of (spans d) k of
        None \<Rightarrow> Inl KeyError
      | Some sps \<Rightarrow> py_index sps i)"

text \<open>The \<open>string\<close> getter: \<open>self._lststr[0][start:end]\<close>.\<close>

definition node_string :: "doc \<Rightarrow> node \<Rightarrow> error + string" where
  "node_string d n =
     (case get_span d n of
        Inl e \<Rightarrow> Inl e
      | Inr (spanstart, spanend) \<Rightarrow> Inr (py_slice (lststr d) spanstart spanend))"

section \<open>The rebase engine\<close>

text \<open>The body of the loop of \<open>_extend_span_update\<close>, for one span.\<close>

definition extend_span :: "int \<Rightarrow> int \<Rightarrow> span \<Rightarrow> span" where
  "extend_span astart alength sp =
     (case sp of (spanstart, spanend) \<Rightarrow>
        if astart < spanstart then (spanstart + alength, spanend + alength)
        else if spanstart \<le> astart \<and> astart < spanend then (spanstart, spanend + alength)
        else (spanstart, spanend))"

text \<open>The body of the loop of \<open>_shrink_span_update\<close>, for one span.\<close>

definition shrink_span :: "int \<Rightarrow> int \<Rightarrow> span \<Rightarrow> span" where
  "shrink_span rmstart rmend sp =
     (case sp of (spanstart, spanend) \<Rightarrow>
        let rmlength = rmend - rmstart in
        if spanend \<le> rmstart then (spanstart, spanend)
        else if rmend \<le> spanstart then (spanstart - rmlength, spanend - rmlength)
        else if rmstart < spanstart then
          (if rmend \<le> spanend then (rmstart, spanend - rmlength) else (rmstart, rmstart))
        else
          (if rmend \<le> spanend then (spanstart, spanend - rmlength) else (spanstart, rmstart)))"

text \<open>Both loops visit every list of the dictionary and every slot of each list.\<close>

definition map_spans :: "(span \<Rightarrow> span) \<Rightarrow> span_table \<Rightarrow> span_table" where
  "map_spans f tbl = map (\<lambda>(k, sps). (k, map f sps)) tbl"

definition extend_span_update :: "int \<Rightarrow> int \<Rightarrow> span_table \<Rightarrow> span_table" where
  "extend_span_update astart alength tbl = map_spans (extend_span astart alength) tbl"

definition shrink_span_update :: "int \<Rightarrow> int \<Rightarrow> span_table \<Rightarrow> span_table" where
  "shrink_span_update rmstart rmend tbl = map_spans (shrink_span rmstart rmend) tbl"

text \<open>
  The \<open>string\<close> setter, the only place that writes the buffer. The span is read
  again after the buffer is written in the growth branch, as the source does.
\<close>

definition set_string :: "doc \<Rightarrow> node \<Rightarrow> string \<Rightarrow> error + doc" where
  "set_string d n newstring =
     (case node_string d n of
        Inl e \<Rightarrow> Inl e
      | Inr old \<Rightarrow>
     (case get_span d n of
        Inl e \<Rightarrow> Inl e
      | Inr (oldstart, oldend) \<Rightarrow>
          let oldlength = int (length old);
              newlength = int (length newstring);
              d1 = d\<lparr>lststr := py_slice_to (lststr d) oldstart @ newstring
                                 @ py_slice_from (lststr d) oldend\<rparr>
          in if newlength > oldlength then
               (case get_span d1 n of
                  Inl e \<Rightarrow> Inl e
                | Inr (oldstart1, oldend1) \<Rightarrow>
                    Inr (d1\<lparr>spans :=
                      extend_span_update oldstart1 (newlength - oldlength) (spans d1)\<rparr>))
             else if newlength < oldlength then
               Inr (d1\<lparr>spans :=
                 shrink_span_update oldstart (oldstart + oldlength - newlength) (spans d1)\<rparr>)
             else Inr d1))"

text \<open>A sequence of calls of the setter; the first exception ends it.\<close>

fun set_strings :: "doc \<Rightarrow> (node \<times> string) list \<Rightarrow> error + doc" where
  "set_strings d [] = Inr d"
| "set_strings d ((n, newstring) # rest) =
     (case set_string d n newstring of
        Inl e \<Rightarrow> Inl e
      | Inr d1 \<Rightarrow> set_strings d1 rest)"

text \<open>The length delta of one call: \<open>len(newstring) - len(self.string)\<close>.\<close>

definition length_delta :: "doc \<Rightarrow> node \<Rightarrow> string \<Rightarrow> int" where
  "length_delta d n newstring =
     (case node_string d n of
        Inl e \<Rightarrow> 0
      | Inr old \<Rightarrow> int (length newstring) - int (length old))"

text \<open>Invariant 1 of the data model: every span lies inside the buffer.\<close>

definition span_ok :: "nat \<Rightarrow> span \<Rightarrow> bool" where
  "span_ok n sp = (0 \<le> fst sp \<and> fst sp \<le> snd sp \<and> snd sp \<le> int n)"

definition spans_ok :: "doc \<Rightarrow> bool" where
  "spans_ok d = list_all (\<lambda>(k, sps). list_all (span_ok (length (lststr d))) sps) (spans d)"

text \<open>The slots of the table: its keys in order, with the length of each list.\<close>

definition slots :: "span_table \<Rightarrow> (key \<times> nat) list" where
  "slots tbl = map (\<lambda>(k, sps). (k, length sps)) tbl"

section \<open>The rebase rules as the specification words them\<close>

text \<open>
  The case rules of the specification (section 4.2), written from its words, to be
  compared with \<open>extend_span\<close> and \<open>shrink_span\<close>: \<open>p\<close> is the start of the
  edited span and \<open>delta\<close> the length delta. For growth: a span that starts after
  \<open>p\<close> moves by \<open>delta\<close>; else a span with \<open>start \<le> p < end\<close> gets its end moved;
  else it is unchanged. For shrink, with \<open>removeStart = p\<close> and
  \<open>removeEnd = p + |delta|\<close>: a span ending at or before \<open>removeStart\<close> is
  unchanged; else a span starting at or after \<open>removeEnd\<close> moves left; else a span
  starting after \<open>removeStart\<close> starts at \<open>removeStart\<close> and keeps what is left of
  it; otherwise it keeps its start and its end is moved or clipped.
\<close>

definition rebase_rules :: "int \<Rightarrow> int \<Rightarrow> span \<Rightarrow> span" where
  "rebase_rules p delta sp =
     (case sp of (s, e) \<Rightarrow>
        if delta > 0 then
          (if s > p then (s + delta, e + delta)
           else if s \<le> p \<and> p < e then (s, e + delta)
           else (s, e))
        else if delta < 0 then
          (let removeStart = p; removeEnd = p + \<bar>delta\<bar> in
           if e \<le> removeStart then (s, e)
           else if removeEnd \<le> s then (s - \<bar>delta\<bar>, e - \<bar>delta\<bar>)
           else if removeStart < s then
             (if removeEnd \<le> e then (removeStart, e - \<bar>delta\<bar>)
              else (removeStart, removeStart))
           else
             (if removeEnd \<le> e then (s, e - \<bar>delta\<bar>) else (s, removeStart)))
        else (s, e))"

section \<open>Python string methods\<close>

text \<open>
  Characters are the code points below 256. \<open>is_space\<close> is Python's \<open>str.isspace\<close>
  and the class \<open>\s\<close> of \<open>re\<close> on them.
\<close>

definition newline :: char where
  "newline = CHR 0x0A"

definition is_space :: "char \<Rightarrow> bool" where
  "is_space c = ((of_char c :: nat) \<in> {9, 10, 11, 12, 13, 28, 29, 30, 31, 32, 133, 160})"

text \<open>
  \<open>s.replace(old, new)\<close>: every occurrence of \<open>old\<close>, found from the left without
  overlap, becomes \<open>new\<close>. With an empty \<open>old\<close>, \<open>new\<close> is put before every
  character and at the end.
\<close>

function str_replace :: "string \<Rightarrow> string \<Rightarrow> string \<Rightarrow> string" where
  "str_replace s old new =
     (if old = [] then
        (case s of [] \<Rightarrow> new | c # cs \<Rightarrow> new @ c # str_replace cs old new)
      else if s = [] then []
      else if take (length old) s = old then new @ str_replace (drop (length old) s) old new
      else hd s # str_replace (tl s) old new)"
  by pat_completeness auto
termination
  by (relation "measure (\<lambda>(s, old, new). length s)") (auto simp: Suc_le_eq)

declare str_replace.simps [simp del]

text \<open>
  \<open>s.partition(c)\<close> and \<open>s.rpartition(c)\<close> for a one-character separator: the
  text before the first (last) occurrence, the separator, the text after it; when
  the separator does not occur, \<open>(s, '', '')\<close> and \<open>('', '', s)\<close>.
\<close>

definition str_partition :: "string \<Rightarrow> char \<Rightarrow> string \<times> string \<times> string" where
  "str_partition s c =
     (if c \<in> set s
      then (takeWhile (\<lambda>x. x \<noteq> c) s, [c], tl (dropWhile (\<lambda>x. x \<noteq> c) s))
      else (s, [], []))"

definition str_rpartition :: "string \<Rightarrow> char \<Rightarrow> string \<times> string \<times> string" where
  "str_rpartition s c =
     (if c \<in> set s
      then (rev (tl (dropWhile (\<lambda>x. x \<noteq> c) (rev s))), [c],
            rev (takeWhile (\<lambda>x. x \<noteq> c) (rev s)))
      else ([], [], s))"

text \<open>
  \<open>s.find(c, start)\<close> for a one-character \<open>c\<close>: the lowest index from \<open>start\<close> on
  that holds \<open>c\<close>, or \<open>-1\<close>; \<open>start\<close> is normalised as a slice index is.
\<close>

fun find_from :: "string \<Rightarrow> char \<Rightarrow> nat \<Rightarrow> int" where
  "find_from [] c i = - 1"
| "find_from (x # xs) c i = (if x = c then int i else find_from xs c (Suc i))"

definition str_find :: "string \<Rightarrow> char \<Rightarrow> int \<Rightarrow> int" where
  "str_find s c start =
     find_from (drop (norm_index (length s) start) s) c (norm_index (length s) start)"

text \<open>\<open>str(n)\<close> for a natural number: its decimal digits.\<close>

function str_nat :: "nat \<Rightarrow> string" where
  "str_nat n =
     (if n < 10 then [char_of (48 + n)]
      else str_nat (n div 10) @ [char_of (48 + n mod 10)])"
  by pat_completeness auto
termination
  by (relation "measure (\<lambda>n. n)") auto

declare str_nat.simps [simp del]

text \<open>\<open>xs.index(x)\<close> for an \<open>x\<close> that is in the list: the first index that holds it.\<close>

definition index_of :: "'a list \<Rightarrow> 'a \<Rightarrow> nat" where
  "index_of xs x = length (takeWhile (\<lambda>y. y \<noteq> x) xs)"

text \<open>Sequencing of computations that can raise: the first exception is the result.\<close>

definition err_bind :: "error + 'a \<Rightarrow> ('a \<Rightarrow> error + 'b) \<Rightarrow> error + 'b" where
  "err_bind m f = (case m of Inl e \<Rightarrow> Inl e | Inr x \<Rightarrow> f x)"

text \<open>\<open>s.rstrip()\<close>: the string without its trailing whitespace.\<close>

definition str_rstrip :: "string \<Rightarrow> string" where
  "str_rstrip s = rev (dropWhile is_space (rev s))"

section \<open>Regular expressions of the module \<open>re\<close>\<close>

text \<open>
  The constructs the patterns of the source use. Every repetition of the source is
  over one character class, so the repetitions take a class. \<open>Group\<close> is a capturing
  group with its number and \<open>Backref\<close> the reference \<open>\1\<close>; \<open>Ahead\<close>, \<open>NotAhead\<close>
  are \<open>(?=r)\<close>, \<open>(?!r)\<close>; \<open>Behind\<close>, \<open>NotBehind\<close> are the one-character lookbehinds
  \<open>(?<=c)\<close>, \<open>(?<!c)\<close>; \<open>Bos\<close> is \<open>^\<close> (also \<open>(?<=^)\<close>) and \<open>Eos\<close> is \<open>$\<close>, both
  without \<open>MULTILINE\<close>.
\<close>

datatype rx =
    Lit string
  | Cls "char \<Rightarrow> bool"
  | Seq rx rx
  | Alt rx rx
  | Star "char \<Rightarrow> bool"
  | StarLazy "char \<Rightarrow> bool"
  | PlusLazy "char \<Rightarrow> bool"
  | Rep "char \<Rightarrow> bool" nat nat
  | Group nat rx
  | Backref nat
  | Ahead rx
  | NotAhead rx
  | Behind "char \<Rightarrow> bool"
  | NotBehind "char \<Rightarrow> bool"
  | Bos
  | Eos

type_synonym groups = "(nat \<times> nat \<times> nat) list"

text \<open>
  The positions a run of characters of a class can end at, from position \<open>p\<close> with
  the text \<open>xs\<close> ahead: \<open>p\<close>, \<open>p + 1\<close>, ... in increasing order.
\<close>

fun run_ends :: "(char \<Rightarrow> bool) \<Rightarrow> string \<Rightarrow> nat \<Rightarrow> nat list" where
  "run_ends c [] p = [p]"
| "run_ends c (x # xs) p = p # (if c x then run_ends c xs (Suc p) else [])"

text \<open>
  The backtracking matcher: \<open>rx_ends r s (p, g)\<close> lists the states (end position,
  captured groups) in which a match of \<open>r\<close> in \<open>s\<close> from position \<open>p\<close> can end, in the
  order in which backtracking tries them. A greedy repetition tries the longest run
  first, a lazy one the shortest; an alternation tries its left branch first.
\<close>

fun rx_ends :: "rx \<Rightarrow> string \<Rightarrow> nat \<times> groups \<Rightarrow> (nat \<times> groups) list" where
  "rx_ends (Lit l) s (p, g) =
     (if take (length l) (drop p s) = l then [(p + length l, g)] else [])"
| "rx_ends (Cls c) s (p, g) =
     (if p < length s \<and> c (s ! p) then [(Suc p, g)] else [])"
| "rx_ends (Seq a b) s (p, g) = concat (map (rx_ends b s) (rx_ends a s (p, g)))"
| "rx_ends (Alt a b) s (p, g) = rx_ends a s (p, g) @ rx_ends b s (p, g)"
| "rx_ends (Star c) s (p, g) = map (\<lambda>q. (q, g)) (rev (run_ends c (drop p s) p))"
| "rx_ends (StarLazy c) s (p, g) = map (\<lambda>q. (q, g)) (run_ends c (drop p s) p)"
| "rx_ends (PlusLazy c) s (p, g) = map (\<lambda>q. (q, g)) (tl (run_ends c (drop p s) p))"
| "rx_ends (Rep c lo hi) s (p, g) =
     map (\<lambda>q. (q, g)) (rev (drop lo (take (Suc hi) (run_ends c (drop p s) p))))"
| "rx_ends (Group i r) s (p, g) = map (\<lambda>(q, g1). (q, (i, p, q) # g1)) (rx_ends r s (p, g))"
| "rx_ends (Backref i) s (p, g) =
     (case map_of g i of
        None \<Rightarrow> []
      | Some (a, b) \<Rightarrow>
          (let t = take (b - a) (drop a s)
           in if take (length t) (drop p s) = t then [(p + length t, g)] else []))"
| "rx_ends (Ahead r) s (p, g) = (if rx_ends r s (p, g) = [] then [] else [(p, g)])"
| "rx_ends (NotAhead r) s (p, g) = (if rx_ends r s (p, g) = [] then [(p, g)] else [])"
| "rx_ends (Behind c) s (p, g) =
     (if 0 < p \<and> p \<le> length s \<and> c (s ! (p - 1)) then [(p, g)] else [])"
| "rx_ends (NotBehind c) s (p, g) =
     (if 0 < p \<and> p \<le> length s \<and> c (s ! (p - 1)) then [] else [(p, g)])"
| "rx_ends Bos s (p, g) = (if p = 0 then [(p, g)] else [])"
| "rx_ends Eos s (p, g) =
     (if p = length s \<or> (Suc p = length s \<and> s ! p = newline) then [(p, g)] else [])"

text \<open>A match object: its span and its groups.\<close>

type_synonym rmatch = "nat \<times> nat \<times> groups"

text \<open>\<open>pattern.match(s, p)\<close>: the first way the pattern matches at \<open>p\<close>, if any.\<close>

definition rx_match_at :: "rx \<Rightarrow> string \<Rightarrow> nat \<Rightarrow> rmatch option" where
  "rx_match_at r s p =
     (case rx_ends r s (p, []) of
        [] \<Rightarrow> None
      | (q, g) # rest \<Rightarrow> Some (p, q, g))"

text \<open>
  \<open>pattern.finditer(s)\<close>, from position \<open>p\<close>: the matches from left to right without
  overlap. The search goes on at the end of a match, and one position further after
  an empty match (no pattern of the source that is iterated matches the empty string).
\<close>

function finditer_from :: "rx \<Rightarrow> string \<Rightarrow> nat \<Rightarrow> rmatch list" where
  "finditer_from r s p =
     (if length s < p then []
      else (case rx_match_at r s p of
              None \<Rightarrow> finditer_from r s (Suc p)
            | Some (a, q, g) \<Rightarrow> (a, q, g) # finditer_from r s (if p < q then q else Suc p)))"
  by pat_completeness auto
termination
  by (relation "measure (\<lambda>(r, s, p). Suc (length s) - p)") auto

declare finditer_from.simps [simp del]

definition finditer :: "rx \<Rightarrow> string \<Rightarrow> rmatch list" where
  "finditer r s = finditer_from r s 0"

text \<open>\<open>match.group()\<close>: the matched text.\<close>

definition match_text :: "string \<Rightarrow> rmatch \<Rightarrow> string" where
  "match_text s m = (case m of (a, b, g) \<Rightarrow> take (b - a) (drop a s))"

text \<open>\<open>match.span()\<close>.\<close>

definition match_span :: "rmatch \<Rightarrow> span" where
  "match_span m = (case m of (a, b, g) \<Rightarrow> (int a, int b))"

text \<open>
  \<open>re.sub(pattern, repl, s)\<close> for a pattern without empty matches: the text between
  the matches is kept and every match becomes \<open>repl\<close>.
\<close>

fun sub_from :: "string \<Rightarrow> nat \<Rightarrow> rmatch list \<Rightarrow> string \<Rightarrow> string" where
  "sub_from s pos [] repl = drop pos s"
| "sub_from s pos ((a, b, g) # ms) repl =
     take (a - pos) (drop pos s) @ repl @ sub_from s b ms repl"

definition re_sub :: "rx \<Rightarrow> string \<Rightarrow> string \<Rightarrow> string" where
  "re_sub r repl s = sub_from s 0 (finditer r s) repl"

section \<open>The patterns of the source\<close>

text \<open>A sequence of patterns, one after the other.\<close>

fun seqs :: "rx list \<Rightarrow> rx" where
  "seqs [] = Lit []"
| "seqs [r] = r"
| "seqs (r # rs) = Seq r (seqs rs)"

text \<open>
  \<open>VALID_TITLE_CHARS_PATTERN = r'[^\x00-\x1f\|\{\}\[\]<>\n]*'\<close>: the class of one
  title character.
\<close>

definition title_char :: "char \<Rightarrow> bool" where
  "title_char c = (\<not> (of_char c :: nat) \<le> 31 \<and> c \<notin> set ''|{}[]<>'' \<and> c \<noteq> newline)"

definition not_brace :: "char \<Rightarrow> bool" where
  "not_brace c = (c \<noteq> CHR ''{'' \<and> c \<noteq> CHR ''}'')"

definition any_char :: "char \<Rightarrow> bool" where
  "any_char c = True"

text \<open>
  \<open>TEMPLATE_PATTERN = r'\{\{\s*' + VALID_TITLE_CHARS_PATTERN + r'\s*(\|[^{}]*?\}\}|\}\})'\<close>,
  with the number of its group.
\<close>

definition TEMPLATE_PATTERN :: "nat \<Rightarrow> rx" where
  "TEMPLATE_PATTERN i =
     seqs [Lit ''{{'', Star is_space, Star title_char, Star is_space,
           Group i (Alt (seqs [Lit ''|'', StarLazy not_brace, Lit ''}}'']) (Lit ''}}''))]"

text \<open>
  \<open>TEMPLATE_NOT_PARAM_REGEX = TEMPLATE_PATTERN + r'(?!\})' + r'|(?<!{)' + TEMPLATE_PATTERN\<close>.
\<close>

definition TEMPLATE_NOT_PARAM_REGEX :: rx where
  "TEMPLATE_NOT_PARAM_REGEX =
     Alt (Seq (TEMPLATE_PATTERN 1) (NotAhead (Lit ''}'')))
         (Seq (NotBehind (\<lambda>c. c = CHR ''{'')) (TEMPLATE_PATTERN 2))"

text \<open>\<open>TEMPLATE_PARAMETER_REGEX = r'\{\{\{[^{}]*?\}\}\}'\<close>.\<close>

definition TEMPLATE_PARAMETER_REGEX :: rx where
  "TEMPLATE_PARAMETER_REGEX = seqs [Lit ''{{{'', StarLazy not_brace, Lit ''}}}'']"

text \<open>\<open>PARSER_FUNCTION_REGEX = r'\{\{\s*#' + r'[^\s]*' + r':[^{}]*?\}\}'\<close>.\<close>

definition PARSER_FUNCTION_REGEX :: rx where
  "PARSER_FUNCTION_REGEX =
     seqs [Lit ''{{'', Star is_space, Lit ''#'', Star (\<lambda>c. \<not> is_space c), Lit '':'',
           StarLazy not_brace, Lit ''}}'']"

text \<open>
  \<open>WIKILINK_REGEX = r'\[\[' + VALID_TITLE_CHARS_PATTERN + r'(\]\]|\|[\S\s]*?\]\])'\<close>.
\<close>

definition WIKILINK_REGEX :: rx where
  "WIKILINK_REGEX =
     seqs [Lit ''[['', Star title_char,
           Group 1 (Alt (Lit '']]'') (seqs [Lit ''|'', StarLazy any_char, Lit '']]'']))]"

text \<open>\<open>COMMENT_REGEX = r'<!--.*?-->'\<close> with \<open>DOTALL\<close>.\<close>

definition COMMENT_REGEX :: rx where
  "COMMENT_REGEX = seqs [Lit ''<!--'', StarLazy any_char, Lit ''-->'']"

text \<open>\<open>NOWIKI_REGEX = r'<nowiki\s*.*?>.*?</nowiki\s*>'\<close> with \<open>DOTALL\<close>.\<close>

definition NOWIKI_REGEX :: rx where
  "NOWIKI_REGEX =
     seqs [Lit ''<nowiki'', Star is_space, StarLazy any_char, Lit ''>'', StarLazy any_char,
           Lit ''</nowiki'', Star is_space, Lit ''>'']"

text \<open>
  The two substitutions of single braces at the head of the loop of \<open>_get_spans\<close>:
  \<open>r'(?<!{){(?=[^{])'\<close> and \<open>r'(?<!})}(?=[^}])'\<close>.
\<close>

definition LONE_OPEN_REGEX :: rx where
  "LONE_OPEN_REGEX =
     seqs [NotBehind (\<lambda>c. c = CHR ''{''), Lit ''{'', Ahead (Cls (\<lambda>c. c \<noteq> CHR ''{''))]"

definition LONE_CLOSE_REGEX :: rx where
  "LONE_CLOSE_REGEX =
     seqs [NotBehind (\<lambda>c. c = CHR ''}''), Lit ''}'', Ahead (Cls (\<lambda>c. c \<noteq> CHR ''}''))]"

section \<open>The tokenizer \<open>_get_spans\<close>\<close>

text \<open>
  The body of the loops \<open>for match in REGEX.finditer(string): ...
  string = string.replace(group, f(group))\<close>: the matches are those of the string the
  loop started with; each replaces every occurrence of its text in the current string.
\<close>

definition mask_matches :: "(string \<Rightarrow> string) \<Rightarrow> string \<Rightarrow> rmatch list \<Rightarrow> string" where
  "mask_matches f s ms =
     foldl (\<lambda>cur m. str_replace cur (match_text s m) (f (match_text s m))) s ms"

text \<open>The three replacements: \<open>'_' * len(group)\<close>, the braces of a wikilink, and
  \<open>'___' + group[3:-3] + '___'\<close> (or with two).\<close>

definition mask_all :: "string \<Rightarrow> string" where
  "mask_all g = replicate (length g) (CHR ''_'')"

definition mask_braces :: "string \<Rightarrow> string" where
  "mask_braces g = str_replace (str_replace g ''}'' ''_'') ''{'' ''_''"

definition mask_delims :: "nat \<Rightarrow> string \<Rightarrow> string" where
  "mask_delims k g =
     replicate k (CHR ''_'') @ py_slice g (int k) (- int k) @ replicate k (CHR ''_'')"

text \<open>
  The three kinds of brace constructs the loop looks for, each with its pattern and
  the width of its delimiters.
\<close>

datatype brace_kind = Parameter_kind | ParserFunction_kind | Template_kind

fun kind_rx :: "brace_kind \<Rightarrow> rx" where
  "kind_rx Parameter_kind = TEMPLATE_PARAMETER_REGEX"
| "kind_rx ParserFunction_kind = PARSER_FUNCTION_REGEX"
| "kind_rx Template_kind = TEMPLATE_NOT_PARAM_REGEX"

fun kind_width :: "brace_kind \<Rightarrow> nat" where
  "kind_width Parameter_kind = 3"
| "kind_width ParserFunction_kind = 2"
| "kind_width Template_kind = 2"

definition brace_count :: "string \<Rightarrow> nat" where
  "brace_count s = length (filter (\<lambda>c. c = CHR ''{'' \<or> c = CHR ''}'') s)"

text \<open>
  One of the inner loops \<open>loop = True; while loop: loop = False; for match in ...\<close>.
  The result says whether the loop found a match (the variable \<open>match\<close> of the source
  is then not \<open>None\<close>), and gives the masked string and the spans with the new ones
  appended.
\<close>

function mask_loop :: "brace_kind \<Rightarrow> string \<Rightarrow> span list \<Rightarrow> bool \<times> string \<times> span list" where
  "mask_loop k string sps =
     (let ms = finditer (kind_rx k) string in
      if ms = [] then (False, string, sps)
      else (case mask_loop k (mask_matches (mask_delims (kind_width k)) string ms)
                        (sps @ map match_span ms) of
              (found, string1, sps1) \<Rightarrow> (True, string1, sps1)))"
  by pat_completeness auto

text \<open>
  One pass of the loop \<open>while True:\<close>: the single braces are masked, then the three
  inner loops run in the order parameters, parser functions, templates.
\<close>

definition mask_single_braces :: "string \<Rightarrow> string" where
  "mask_single_braces string =
     (let s1 = re_sub LONE_OPEN_REGEX ''_'' string;
          s2 = re_sub LONE_CLOSE_REGEX ''_'' s1;
          s3 = (case str_rpartition s2 (CHR ''}'') of
                  (head, sep, tail) \<Rightarrow> head @ sep @ str_replace tail ''{'' ''_'')
      in (case str_partition s3 (CHR ''{'') of
            (head, sep, tail) \<Rightarrow> str_replace head ''}'' ''_'' @ sep @ tail))"

type_synonym brace_spans = "span list \<times> span list \<times> span list"

definition brace_pass :: "string \<Rightarrow> brace_spans \<Rightarrow> bool \<times> string \<times> brace_spans" where
  "brace_pass string sps =
     (case sps of (parameter_spans, parser_function_spans, template_spans) \<Rightarrow>
      (case mask_loop Parameter_kind (mask_single_braces string) parameter_spans of
         (f1, s1, ps) \<Rightarrow>
      (case mask_loop ParserFunction_kind s1 parser_function_spans of
         (f2, s2, pfs) \<Rightarrow>
      (case mask_loop Template_kind s2 template_spans of
         (f3, s3, ts) \<Rightarrow> (f1 \<or> f2 \<or> f3, s3, (ps, pfs, ts))))))"

function brace_loop :: "string \<Rightarrow> brace_spans \<Rightarrow> brace_spans" where
  "brace_loop string sps =
     (case brace_pass string sps of
        (found, string1, sps1) \<Rightarrow> if found then brace_loop string1 sps1 else sps1)"
  by pat_completeness auto

text \<open>The number of passes the loop \<open>while True:\<close> makes, the last one included.\<close>

function brace_passes :: "string \<Rightarrow> brace_spans \<Rightarrow> nat" where
  "brace_passes string sps =
     (case brace_pass string sps of
        (found, string1, sps1) \<Rightarrow> if found then Suc (brace_passes string1 sps1) else 1)"
  by pat_completeness auto

text \<open>
  The head of \<open>_get_spans\<close>: the comments and the \<open>nowiki\<close> regions are recorded and
  masked, then the wikilinks are recorded and their braces masked. The result is the
  string the loop \<open>while True:\<close> starts with, and the three lists of spans.
\<close>

definition mask_comments_and_links ::
  "string \<Rightarrow> string \<times> span list \<times> span list \<times> span list" where
  "mask_comments_and_links string =
     (let cms = finditer COMMENT_REGEX string;
          s1 = mask_matches mask_all string cms;
          nms = finditer NOWIKI_REGEX s1;
          s2 = mask_matches mask_all s1 nms;
          wms = finditer WIKILINK_REGEX s2;
          s3 = mask_matches mask_braces s2 wms
      in (s3, map match_span wms, map match_span cms, map match_span nms))"

definition get_spans :: "string \<Rightarrow> span_table" where
  "get_spans string =
     (case mask_comments_and_links string of
        (s3, wikilink_spans, comment_spans, nowiki_spans) \<Rightarrow>
     (case brace_loop s3 ([], [], []) of
        (parameter_spans, parser_function_spans, template_spans) \<Rightarrow>
          [(Key_p, parameter_spans), (Key_pf, parser_function_spans),
           (Key_t, template_spans), (Key_wl, wikilink_spans),
           (Key_c, comment_spans), (Key_nw, nowiki_spans)]))"



text \<open>\<open>WikiText(string)\<close>: the document of a text.\<close>

definition WikiText :: "string \<Rightarrow> doc" where
  "WikiText string = \<lparr>lststr = string, spans = get_spans string\<rparr>"

section \<open>Objects and their accessors\<close>

text \<open>\<open>self._spans[key]\<close>.\<close>

definition lookup :: "span_table \<Rightarrow> key \<Rightarrow> error + span list" where
  "lookup tbl k = (case map_of tbl k of None \<Rightarrow> Inl KeyError | Some sps \<Rightarrow> Inr sps)"

text \<open>
  \<open>_gen_subspan_indices\<close>: the indices of the spans of a type that lie in the span of
  the object; \<open>WikiText\<close> counts a span equal to its own, \<open>_Indexed_Object\<close> does not.
\<close>

definition gen_subspan_indices :: "doc \<Rightarrow> node \<Rightarrow> key \<Rightarrow> error + int list" where
  "gen_subspan_indices d n k =
     err_bind (get_span d n) (\<lambda>(selfstart, selfend).
     err_bind (lookup (spans d) k) (\<lambda>sps.
       Inr (map (\<lambda>(i, s). int i)
              (filter (\<lambda>(i, s).
                   if n = Root then selfstart \<le> fst s \<and> snd s \<le> selfend
                   else selfstart < fst s \<and> snd s < selfend)
                 (enumerate 0 sps)))))"

text \<open>The properties \<open>parameters\<close>, \<open>parser_functions\<close>, \<open>templates\<close>.\<close>

definition parameters :: "doc \<Rightarrow> node \<Rightarrow> error + node list" where
  "parameters d n = err_bind (gen_subspan_indices d n Key_p) (\<lambda>is. Inr (map (Indexed Key_p) is))"

definition parser_functions :: "doc \<Rightarrow> node \<Rightarrow> error + node list" where
  "parser_functions d n =
     err_bind (gen_subspan_indices d n Key_pf) (\<lambda>is. Inr (map (Indexed Key_pf) is))"

definition templates :: "doc \<Rightarrow> node \<Rightarrow> error + node list" where
  "templates d n = err_bind (gen_subspan_indices d n Key_t) (\<lambda>is. Inr (map (Indexed Key_t) is))"

subsection \<open>Splitting outside of the subspans\<close>

text \<open>
  \<open>_in_subspans_factory\<close>: the spans of the six types that lie strictly inside the
  span of the object, and the test whether an index is in one of them.
\<close>

definition strictly_inside :: "span \<Rightarrow> span list \<Rightarrow> span list" where
  "strictly_inside self sps = filter (\<lambda>sp. fst self < fst sp \<and> snd sp < snd self) sps"

definition in_spans :: "span list \<Rightarrow> int \<Rightarrow> bool" where
  "in_spans subspans index = list_ex (\<lambda>sp. fst sp \<le> index \<and> index < snd sp) subspans"

definition six_types :: "span_table \<Rightarrow> error + span list" where
  "six_types tbl =
     err_bind (lookup tbl Key_t) (\<lambda>t.
     err_bind (lookup tbl Key_p) (\<lambda>p.
     err_bind (lookup tbl Key_pf) (\<lambda>pf.
     err_bind (lookup tbl Key_wl) (\<lambda>wl.
     err_bind (lookup tbl Key_c) (\<lambda>c.
     err_bind (lookup tbl Key_nw) (\<lambda>nw. Inr (t @ p @ pf @ wl @ c @ nw)))))))"

text \<open>
  The inner loop of \<open>_not_in_subspans_splitspans\<close>:
  \<open>while in_spans(spanstart + index): index = string.find(char, index + 1)\<close>.
  \<open>allspans\<close> are the spans of the six types; the subspans are those of them strictly
  inside \<open>self\<close>.
\<close>

function skip_subspans :: "span list \<Rightarrow> span \<Rightarrow> string \<Rightarrow> char \<Rightarrow> int \<Rightarrow> int" where
  "skip_subspans allspans self string c index =
     (if in_spans (strictly_inside self allspans) (fst self + index)
      then skip_subspans allspans self string c (str_find string c (index + 1))
      else index)"
  by pat_completeness auto

text \<open>The loop \<open>while True:\<close> of \<open>_not_in_subspans_splitspans\<close>.\<close>

function splitspans_loop ::
  "span list \<Rightarrow> span \<Rightarrow> string \<Rightarrow> char \<Rightarrow> int \<Rightarrow> span list \<Rightarrow> span list" where
  "splitspans_loop allspans self string c findstart results =
     (let index = skip_subspans allspans self string c (str_find string c findstart) in
      if index = - 1 then results @ [(fst self + findstart, snd self)]
      else splitspans_loop allspans self string c (index + 1)
             (results @ [(fst self + findstart, fst self + index)]))"
  by pat_completeness auto

definition not_in_subspans_splitspans :: "doc \<Rightarrow> node \<Rightarrow> char \<Rightarrow> error + span list" where
  "not_in_subspans_splitspans d n c =
     err_bind (get_span d n) (\<lambda>(spanstart, spanend).
     err_bind (six_types (spans d)) (\<lambda>allspans.
       Inr (splitspans_loop allspans (spanstart, spanend)
              (py_slice (lststr d) spanstart spanend) c 0 [])))"

subsection \<open>Templates and their arguments\<close>

text \<open>
  The loop of \<open>arguments\<close> over the spans it found: a span that is not yet in the list
  of the owner is appended, and the argument is the object at the first index of the
  span in the list.
\<close>

fun add_spans :: "span list \<Rightarrow> span list \<Rightarrow> span list \<times> int list" where
  "add_spans aspans [] = (aspans, [])"
| "add_spans aspans (aspan # rest) =
     (let aspans1 = (if aspan \<in> set aspans then aspans else aspans @ [aspan]);
          index = int (index_of aspans1 aspan)
      in case add_spans aspans1 rest of (aspans2, indices) \<Rightarrow> (aspans2, index # indices))"

text \<open>
  \<open>Template.arguments\<close>. It writes the list of the owner into the table, under the
  key \<open>'ta' + str(index)\<close>, and returns the arguments.
\<close>

definition template_arguments :: "doc \<Rightarrow> int \<Rightarrow> error + doc \<times> node list" where
  "template_arguments d index =
     err_bind (not_in_subspans_splitspans d (Indexed Key_t index) (CHR ''|'')) (\<lambda>splits.
       let barsplits = drop 1 splits;
           typeindex = Key_ta index;
           aspans = (case map_of (spans d) typeindex of None \<Rightarrow> [] | Some sps \<Rightarrow> sps)
       in if barsplits = [] then
            Inr (d\<lparr>spans := AList.update typeindex aspans (spans d)\<rparr>, [])
          else
            (let barsplits1 = butlast barsplits
                   @ [(fst (last barsplits), snd (last barsplits) - 2)]
             in case add_spans aspans (map (\<lambda>aspan. (fst aspan + - 1, snd aspan)) barsplits1) of
                  (aspans1, indices) \<Rightarrow>
                    Inr (d\<lparr>spans := AList.update typeindex aspans1 (spans d)\<rparr>,
                         map (Indexed typeindex) indices)))"

text \<open>\<open>Template.name\<close> and its setter.\<close>

definition template_name :: "doc \<Rightarrow> int \<Rightarrow> error + string" where
  "template_name d index =
     err_bind (node_string d (Indexed Key_t index)) (\<lambda>s.
       Inr (fst (str_partition (py_slice s 2 (- 2)) (CHR ''|''))))"

definition template_set_name :: "doc \<Rightarrow> int \<Rightarrow> string \<Rightarrow> error + doc" where
  "template_set_name d index newname =
     err_bind (node_string d (Indexed Key_t index)) (\<lambda>s.
       case str_partition (py_slice s 2 (- 2)) (CHR ''|'') of
         (name, pipe, paramters) \<Rightarrow>
           if pipe \<noteq> [] then
             set_string d (Indexed Key_t index) (''{{'' @ newname @ ''|'' @ paramters @ ''}}'')
           else set_string d (Indexed Key_t index) (''{{'' @ newname @ ''}}''))"

subsection \<open>Parameters\<close>

text \<open>\<open>Parameter.name\<close>, \<open>Parameter.pipe\<close>, \<open>Parameter.default\<close>.\<close>

definition parameter_parts :: "doc \<Rightarrow> int \<Rightarrow> error + string \<times> string \<times> string" where
  "parameter_parts d index =
     err_bind (node_string d (Indexed Key_p index)) (\<lambda>s.
       Inr (str_partition (py_slice s 3 (- 3)) (CHR ''|'')))"

definition parameter_name :: "doc \<Rightarrow> int \<Rightarrow> error + string" where
  "parameter_name d index = err_bind (parameter_parts d index) (\<lambda>(name, pipe, default). Inr name)"

definition parameter_pipe :: "doc \<Rightarrow> int \<Rightarrow> error + string" where
  "parameter_pipe d index = err_bind (parameter_parts d index) (\<lambda>(name, pipe, default). Inr pipe)"

definition parameter_default :: "doc \<Rightarrow> int \<Rightarrow> error + string" where
  "parameter_default d index =
     err_bind (parameter_parts d index) (\<lambda>(name, pipe, default). Inr default)"

subsection \<open>Arguments\<close>

text \<open>
  An argument is the object \<open>Indexed typeindex index\<close>. \<open>Argument.name\<close> is the text
  before the equal sign without the pipe, or the position of a positional argument:
  one more than the number of non-empty spans before it in the list of its owner
  whose text has no equal sign.
\<close>

definition argument_name :: "doc \<Rightarrow> key \<Rightarrow> int \<Rightarrow> error + string" where
  "argument_name d typeindex index =
     err_bind (node_string d (Indexed typeindex index)) (\<lambda>s.
       case str_partition s (CHR ''='') of
         (pipename, equal, val) \<Rightarrow>
           if equal \<noteq> [] then Inr (py_slice_from pipename 1)
           else
             err_bind (lookup (spans d) typeindex) (\<lambda>sps.
               Inr (str_nat (1 + length (filter
                      (\<lambda>(span0, span1). span0 < span1
                          \<and> CHR ''='' \<notin> set (py_slice (lststr d) span0 span1))
                      (py_slice_to sps index))))))"

text \<open>\<open>Argument.equal_sign\<close> and \<open>Argument.value\<close>.\<close>

definition argument_equal_sign :: "doc \<Rightarrow> key \<Rightarrow> int \<Rightarrow> error + string" where
  "argument_equal_sign d typeindex index =
     err_bind (node_string d (Indexed typeindex index)) (\<lambda>s.
       case str_partition s (CHR ''='') of (pipename, equal, val) \<Rightarrow> Inr equal)"

definition argument_value :: "doc \<Rightarrow> key \<Rightarrow> int \<Rightarrow> error + string" where
  "argument_value d typeindex index =
     err_bind (node_string d (Indexed typeindex index)) (\<lambda>s.
       case str_partition s (CHR ''='') of
         (pipename, equal, val) \<Rightarrow>
           if equal \<noteq> [] then Inr val else Inr (py_slice_from pipename 1))"

text \<open>
  The setter of \<open>Argument.value\<close>. Without an equal sign the new text is
  \<open>pipename[0] + newvalue\<close>, and \<open>pipename[0]\<close> raises on the empty string.
\<close>

definition argument_set_value :: "doc \<Rightarrow> key \<Rightarrow> int \<Rightarrow> string \<Rightarrow> error + doc" where
  "argument_set_value d typeindex index newvalue =
     err_bind (node_string d (Indexed typeindex index)) (\<lambda>s.
       case str_partition s (CHR ''='') of
         (pipename, equal, val) \<Rightarrow>
           if equal \<noteq> [] then
             set_string d (Indexed typeindex index) (pipename @ ''='' @ newvalue)
           else
             err_bind (py_index pipename 0) (\<lambda>c.
               set_string d (Indexed typeindex index) (c # newvalue)))"

text \<open>
  \<open>Argument(string)\<close> without spans and index: the document of the string, with the
  list \<open>[(0, len(string))]\<close> under the key \<open>'a'\<close>; the index of the object is \<open>-1\<close>.
\<close>

definition Argument :: "string \<Rightarrow> doc" where
  "Argument string =
     \<lparr>lststr = string,
      spans = AList.update Key_a [(0, int (length string))] (get_spans string)\<rparr>"

section \<open>Sections\<close>

text \<open>
  \<open>SECTION_HEADER_REGEX = r'(?:(?<=\n)|(?<=^))=[^\n]+?= *(?:\n|$)'\<close>,
  \<open>LEAD_SECTION_REGEX = r'^.*?(?=' + SECTION_HEADER_REGEX.pattern + r')'\<close> and
  \<open>SECTION_REGEX = SECTION_HEADER_REGEX.pattern + r'.*?(?=' +
  SECTION_HEADER_REGEX.pattern + '|$)'\<close>, both with \<open>DOTALL\<close>, and
  \<open>SECTION_LEVEL_TITLE = r'^(={1,6})([^\n]+?)\1( *(?:\n|$))'\<close>.
\<close>

definition not_newline :: "char \<Rightarrow> bool" where
  "not_newline c = (c \<noteq> newline)"

definition SECTION_HEADER_REGEX :: rx where
  "SECTION_HEADER_REGEX =
     seqs [Alt (Behind (\<lambda>c. c = newline)) Bos, Lit ''='', PlusLazy not_newline, Lit ''='',
           Star (\<lambda>c. c = CHR '' ''), Alt (Lit [newline]) Eos]"

definition LEAD_SECTION_REGEX :: rx where
  "LEAD_SECTION_REGEX = seqs [Bos, StarLazy any_char, Ahead SECTION_HEADER_REGEX]"

definition SECTION_REGEX :: rx where
  "SECTION_REGEX =
     seqs [SECTION_HEADER_REGEX, StarLazy any_char, Ahead (Alt SECTION_HEADER_REGEX Eos)]"

definition SECTION_LEVEL_TITLE :: rx where
  "SECTION_LEVEL_TITLE =
     seqs [Bos, Group 1 (Rep (\<lambda>c. c = CHR ''='') 1 6), Group 2 (PlusLazy not_newline),
           Backref 1, Group 3 (Seq (Star (\<lambda>c. c = CHR '' '')) (Alt (Lit [newline]) Eos))]"

text \<open>
  \<open>Section.level\<close> from the string of the section: \<open>0\<close> when
  \<open>SECTION_LEVEL_TITLE\<close> does not match at its start, else \<open>len(m.group(1))\<close>.
\<close>

definition level_of_string :: "string \<Rightarrow> int" where
  "level_of_string s =
     (case rx_match_at SECTION_LEVEL_TITLE s 0 of
        None \<Rightarrow> 0
      | Some (a, b, g) \<Rightarrow> (case map_of g 1 of None \<Rightarrow> 0 | Some (x, y) \<Rightarrow> int (y - x)))"

definition section_level :: "doc \<Rightarrow> int \<Rightarrow> error + int" where
  "section_level d index =
     err_bind (node_string d (Indexed Key_s index)) (\<lambda>s. Inr (level_of_string s))"

text \<open>\<open>Section.title\<close>, \<open>Section.contents\<close> and the setter of \<open>Section.title\<close>.\<close>

definition section_title :: "doc \<Rightarrow> int \<Rightarrow> error + string" where
  "section_title d index =
     err_bind (node_string d (Indexed Key_s index)) (\<lambda>s.
       let level = level_of_string s in
       if level = 0 then Inr []
       else Inr (py_slice (str_rstrip (fst (str_partition s newline))) level (- level)))"

definition section_contents :: "doc \<Rightarrow> int \<Rightarrow> error + string" where
  "section_contents d index =
     err_bind (node_string d (Indexed Key_s index)) (\<lambda>s.
       if level_of_string s = 0 then Inr s
       else Inr (snd (snd (str_partition s newline))))"

definition section_set_title :: "doc \<Rightarrow> int \<Rightarrow> string \<Rightarrow> error + doc" where
  "section_set_title d index newtitle =
     err_bind (section_level d index) (\<lambda>level.
       if level = 0 then Inl RuntimeError
       else
         err_bind (section_contents d index) (\<lambda>contents.
           let equals = replicate (nat level) (CHR ''='') in
           set_string d (Indexed Key_s index) (equals @ newtitle @ equals @ [newline] @ contents)))"

subsection \<open>The property \<open>sections\<close>\<close>

text \<open>
  The level of the section at an index of the list \<open>sspans\<close>, read from the buffer.
\<close>

definition level_at :: "string \<Rightarrow> span list \<Rightarrow> nat \<Rightarrow> int" where
  "level_at buf sspans index =
     level_of_string (py_slice buf (fst (sspans ! index)) (snd (sspans ! index)))"

text \<open>
  The inner loop \<open>for i, section in enumerate(sections[1:])\<close>: the sections built so
  far, without the lead section, are visited in order; one of a lower level than the
  latest gets the end of the latest section; the first other one ends the loop.
\<close>

fun cascade :: "string \<Rightarrow> int \<Rightarrow> int \<Rightarrow> span list \<Rightarrow> nat list \<Rightarrow> span list" where
  "cascade buf latest_level mend sspans [] = sspans"
| "cascade buf latest_level mend sspans (index # rest) =
     (if level_at buf sspans index < latest_level
      then cascade buf latest_level mend (sspans[index := (fst (sspans ! index), mend)]) rest
      else sspans)"

text \<open>\<open>if mspan not in sspans: sspans.append(mspan)\<close>.\<close>

definition append_new :: "span list \<Rightarrow> span \<Rightarrow> span list" where
  "append_new sspans mspan = (if mspan \<in> set sspans then sspans else sspans @ [mspan])"

text \<open>
  The body of the loop \<open>for m in SECTION_REGEX.finditer(selfstring)\<close>. The state is
  the list \<open>sspans\<close> and the indices of the sections built so far, the lead section
  first.
\<close>

definition section_step ::
  "string \<Rightarrow> int \<Rightarrow> span list \<times> nat list \<Rightarrow> rmatch \<Rightarrow> span list \<times> nat list" where
  "section_step buf selfstart st m =
     (case st of (sspans, sections) \<Rightarrow>
        let mspan = (fst (match_span m) + selfstart, snd (match_span m) + selfstart);
            sspans1 = append_new sspans mspan;
            index = index_of sspans1 mspan;
            sections1 = sections @ [index];
            latest_level = level_at buf sspans1 index
        in (cascade buf latest_level (snd mspan) sspans1 (drop 1 sections1), sections1))"

text \<open>
  \<open>WikiText.sections\<close>. \<open>LEAD_SECTION_REGEX.match(selfstring)\<close> is \<open>None\<close> when the
  text has no header line, and its \<open>span()\<close> then raises.
\<close>

definition sections :: "doc \<Rightarrow> node \<Rightarrow> error + doc \<times> node list" where
  "sections d n =
     err_bind (get_span d n) (\<lambda>(selfstart, selfend).
       let selfstring = py_slice (lststr d) selfstart selfend;
           sspans = (case map_of (spans d) Key_s of None \<Rightarrow> [] | Some sps \<Rightarrow> sps)
       in case rx_match_at LEAD_SECTION_REGEX selfstring 0 of
            None \<Rightarrow> Inl AttributeError
          | Some m \<Rightarrow>
              (let mspan = (fst (match_span m) + selfstart, snd (match_span m) + selfstart);
                   sspans1 = append_new sspans mspan;
                   lead = index_of sspans1 mspan
               in case foldl (section_step (lststr d) selfstart) (sspans1, [lead])
                         (finditer SECTION_REGEX selfstring) of
                    (sspans2, sections) \<Rightarrow>
                      Inr (d\<lparr>spans := AList.update Key_s sspans2 (spans d)\<rparr>,
                           map (\<lambda>i. Indexed Key_s (int i)) sections)))"

section \<open>The nesting depth of a tokenized document\<close>






section \<open>A lower bound on the length of a match\<close>


section \<open>Counting the spans of the loop\<close>


section \<open>Example documents\<close>

text \<open>
  The document \<open>{{a|1}}\<close> after its template was asked for its arguments; the same
  document after the template is then renamed to \<open>alpha\<close>; and after the argument is
  then set to the empty string.
\<close>

definition doc_a1 :: doc where
  "doc_a1 =
     \<lparr>lststr = ''{{a|1}}'',
      spans = [(Key_p, []), (Key_pf, []), (Key_t, [(0, 7)]), (Key_wl, []), (Key_c, []),
               (Key_nw, []), (Key_ta 0, [(3, 5)])]\<rparr>"

definition doc_alpha1 :: doc where
  "doc_alpha1 =
     \<lparr>lststr = ''{{alpha|1}}'',
      spans = [(Key_p, []), (Key_pf, []), (Key_t, [(0, 11)]), (Key_wl, []), (Key_c, []),
               (Key_nw, []), (Key_ta 0, [(7, 9)])]\<rparr>"

definition doc_alpha :: doc where
  "doc_alpha =
     \<lparr>lststr = ''{{alpha}}'',
      spans = [(Key_p, []), (Key_pf, []), (Key_t, [(0, 9)]), (Key_wl, []), (Key_c, []),
               (Key_nw, []), (Key_ta 0, [(7, 7)])]\<rparr>"

text \<open>
  The document \<open>{{a|x}}{{b}}\<close> after its first template was asked for its arguments
  and the argument was set to the empty string, and the same document after \<open>|x\<close> is
  then written to that argument.
\<close>

definition doc_ab :: doc where
  "doc_ab =
     \<lparr>lststr = ''{{a}}{{b}}'',
      spans = [(Key_p, []), (Key_pf, []), (Key_t, [(0, 5), (5, 10)]), (Key_wl, []),
               (Key_c, []), (Key_nw, []), (Key_ta 0, [(3, 3)])]\<rparr>"

definition doc_axb :: doc where
  "doc_axb =
     \<lparr>lststr = ''{{a|x}}{{b}}'',
      spans = [(Key_p, []), (Key_pf, []), (Key_t, [(0, 7), (7, 12)]), (Key_wl, []),
               (Key_c, []), (Key_nw, []), (Key_ta 0, [(3, 3)])]\<rparr>"

text \<open>
  The document \<open>{{a|{{b|c}}}}\<close>, and the same document after the outer template,
  and then the inner one, were asked for their arguments.
\<close>

definition doc_nested :: doc where
  "doc_nested = WikiText ''{{a|{{b|c}}}}''"

definition doc_nested_outer :: doc where
  "doc_nested_outer =
     \<lparr>lststr = ''{{a|{{b|c}}}}'',
      spans = [(Key_p, []), (Key_pf, []), (Key_t, [(4, 11), (0, 13)]), (Key_wl, []),
               (Key_c, []), (Key_nw, []), (Key_ta 1, [(3, 11)])]\<rparr>"

definition doc_nested_inner :: doc where
  "doc_nested_inner =
     \<lparr>lststr = ''{{a|{{b|c}}}}'',
      spans = [(Key_p, []), (Key_pf, []), (Key_t, [(4, 11), (0, 13)]), (Key_wl, []),
               (Key_c, []), (Key_nw, []), (Key_ta 1, [(3, 11)]), (Key_ta 0, [(7, 9)])]\<rparr>"

text \<open>The document \<open>{{{x|default}}}\<close>.\<close>

definition doc_parameter :: doc where
  "doc_parameter = WikiText ''{{{x|default}}}''"

text \<open>
  The document of the two lines \<open>== Title ==\<close> and \<open>Body\<close>, and the same document
  after it was asked for its sections.
\<close>

definition doc_title :: doc where
  "doc_title = WikiText (''== Title =='' @ [newline] @ ''Body'')"

definition doc_title_sections :: doc where
  "doc_title_sections =
     \<lparr>lststr = ''== Title =='' @ [newline] @ ''Body'',
      spans = [(Key_p, []), (Key_pf, []), (Key_t, []), (Key_wl, []), (Key_c, []),
               (Key_nw, []), (Key_s, [(0, 0), (0, 16)])]\<rparr>"

text \<open>
  A text of four header lines, of the levels 2, 3, 2 and 3, and the list of section
  spans before and after the last header is found.
\<close>

definition headers_text :: string where
  "headers_text = ''== A =='' @ [newline] @ ''a'' @ [newline] @ ''=== B ==='' @ [newline]
     @ ''b'' @ [newline] @ ''== C =='' @ [newline] @ ''=== D ==='' "

definition headers_before_D :: "span list" where
  "headers_before_D = [(0, 0), (0, 22), (10, 22), (22, 30)]"

definition headers_after_D :: "span list" where
  "headers_after_D = [(0, 0), (0, 39), (10, 22), (22, 30), (30, 39)]"

text \<open>
  The document \<open>{{a|}}\<close> that \<open>{{a|{{b|c}}}}\<close> becomes when the argument of the outer
  template is set to the empty string; the same document after the inner template,
  whose span is now \<open>(3, 4)\<close>, was asked for its arguments; and after \<open>z\<close> is then
  written to the argument it returned.
\<close>

definition doc_emptied :: doc where
  "doc_emptied =
     \<lparr>lststr = ''{{a|}}'',
      spans = [(Key_p, []), (Key_pf, []), (Key_t, [(3, 4), (0, 6)]), (Key_wl, []),
               (Key_c, []), (Key_nw, []), (Key_ta 1, [(3, 4)])]\<rparr>"

definition doc_inverted :: doc where
  "doc_inverted =
     \<lparr>lststr = ''{{a|}}'',
      spans = [(Key_p, []), (Key_pf, []), (Key_t, [(3, 4), (0, 6)]), (Key_wl, []),
               (Key_c, []), (Key_nw, []), (Key_ta 1, [(3, 4)]), (Key_ta 0, [(3, 2)])]\<rparr>"

definition doc_aza :: doc where
  "doc_aza =
     \<lparr>lststr = ''{{aza|}}'',
      spans = [(Key_p, []), (Key_pf, []), (Key_t, [(3, 5), (0, 7)]), (Key_wl, []),
               (Key_c, []), (Key_nw, []), (Key_ta 1, [(3, 5)]), (Key_ta 0, [(3, 2)])]\<rparr>"

text \<open>
  The document \<open>{{a|{{b|c}}}}{{d}}\<close>, whose list of templates holds three spans, and
  the tables after its first template \<open>{{b|c}}\<close> is set to \<open>{{bb|c}}\<close>, or to
  \<open>{{b}}\<close>.
\<close>

definition doc_three :: doc where
  "doc_three = WikiText ''{{a|{{b|c}}}}{{d}}''"

definition doc_three_grown :: doc where
  "doc_three_grown =
     \<lparr>lststr = ''{{a|{{bb|c}}}}{{d}}'',
      spans = [(Key_p, []), (Key_pf, []), (Key_t, [(4, 12), (14, 19), (0, 14)]), (Key_wl, []),
               (Key_c, []), (Key_nw, [])]\<rparr>"

definition doc_three_shrunk :: doc where
  "doc_three_shrunk =
     \<lparr>lststr = ''{{a|{{b}}}}{{d}}'',
      spans = [(Key_p, []), (Key_pf, []), (Key_t, [(4, 9), (11, 16), (0, 11)]), (Key_wl, []),
               (Key_c, []), (Key_nw, [])]\<rparr>"


section \<open>Termination of the loops of the tokenizer\<close>

subsection \<open>Counting braces\<close>

lemma brace_count_append [simp]: "brace_count (a @ b) = brace_count a + brace_count b"
  by (simp add: brace_count_def)

lemma brace_count_Nil [simp]: "brace_count [] = 0"
  by (simp add: brace_count_def)

lemma brace_count_Cons:
  "brace_count (c # s) = (if c = CHR ''{'' \<or> c = CHR ''}'' then 1 else 0) + brace_count s"
  by (simp add: brace_count_def)

lemma brace_count_replicate_underscore [simp]: "brace_count (replicate k (CHR ''_'')) = 0"
  by (simp add: brace_count_def)

lemma brace_count_take_drop: "brace_count (take n s) + brace_count (drop n s) = brace_count s"
  by (metis append_take_drop_id brace_count_append)

lemma brace_count_take_le: "brace_count (take n s) \<le> brace_count s"
  using brace_count_take_drop[of n s] by linarith

lemma brace_count_drop_le: "brace_count (drop n s) \<le> brace_count s"
  using brace_count_take_drop[of n s] by linarith

lemma brace_count_drop_mono: "m \<le> n \<Longrightarrow> brace_count (drop n s) \<le> brace_count (drop m s)"
proof -
  assume "m \<le> n"
  then have "drop n s = drop (n - m) (drop m s)" by simp
  then show ?thesis by (metis brace_count_drop_le)
qed

subsection \<open>replace never adds braces\<close>

lemma str_replace_le:
  "brace_count new \<le> brace_count old \<Longrightarrow> brace_count (str_replace s old new) \<le> brace_count s"
proof (induction s old new rule: str_replace.induct)
  case (1 s old new)
  show ?case
  proof (cases "old = []")
    case True
    note e = this
    show ?thesis
    proof (cases s)
      case Nil
      then show ?thesis using e 1(4) by (subst str_replace.simps) simp
    next
      case (Cons c cs)
      have "brace_count (str_replace cs old new) \<le> brace_count cs"
        using 1(1)[OF e Cons] 1(4) by simp
      then show ?thesis
        using e Cons 1(4) by (subst str_replace.simps) (simp add: brace_count_Cons)
    qed
  next
    case False
    note ne = this
    show ?thesis
    proof (cases "s = []")
      case True
      with ne show ?thesis by (subst str_replace.simps) simp
    next
      case False
      note sne = this
      show ?thesis
      proof (cases "take (length old) s = old")
        case True
        have "brace_count (str_replace (drop (length old) s) old new)
                \<le> brace_count (drop (length old) s)"
          using 1(2)[OF ne sne True] 1(4) by simp
        moreover have "brace_count s = brace_count old + brace_count (drop (length old) s)"
          using brace_count_take_drop[of "length old" s] True by simp
        ultimately show ?thesis
          using ne sne True 1(4) by (subst str_replace.simps) simp
      next
        case False
        have "brace_count (str_replace (tl s) old new) \<le> brace_count (tl s)"
          using 1(3)[OF ne sne False] 1(4) by simp
        then show ?thesis
          using ne sne False by (subst str_replace.simps) (cases s; simp add: brace_count_Cons)
      qed
    qed
  qed
qed

lemma str_replace_less:
  assumes "old \<noteq> []" and "brace_count new < brace_count old"
    and "take (length old) (drop a s) = old"
  shows "brace_count (str_replace s old new) < brace_count s"
  using assms
proof (induction s old new arbitrary: a rule: str_replace.induct)
  case (1 s old new)
  note ne = 1(4)
  have sne: "s \<noteq> []" using 1(4,6) by auto
  show ?case
  proof (cases "take (length old) s = old")
    case True
    have "brace_count (str_replace (drop (length old) s) old new)
                \<le> brace_count (drop (length old) s)"
      using 1(5) by (intro str_replace_le) simp
    moreover have "brace_count s = brace_count old + brace_count (drop (length old) s)"
      using brace_count_take_drop[of "length old" s] True by simp
    ultimately show ?thesis
      using ne sne True 1(5) by (subst str_replace.simps) simp
  next
    case False
    then have "a \<noteq> 0" using 1(6) by (cases a) auto
    then obtain a' where a: "a = Suc a'" by (cases a) auto
    have "take (length old) (drop a' (tl s)) = old"
      using 1(6) a by (simp add: drop_Suc)
    from 1(3)[OF ne sne False ne 1(5) this]
    have "brace_count (str_replace (tl s) old new) < brace_count (tl s)" .
    then show ?thesis
      using ne sne False by (subst str_replace.simps) (cases s; simp add: brace_count_Cons)
  qed
qed


subsection \<open>Where matches begin and end\<close>

lemma run_ends_bounds: "q \<in> set (run_ends c xs p) \<Longrightarrow> p \<le> q \<and> q \<le> p + length xs"
  by (induction xs arbitrary: p) (fastforce split: if_splits)+

lemma take_eq_length: "take n xs = l \<Longrightarrow> length l = n \<Longrightarrow> n \<le> length xs"
  by (metis length_take min.cobounded2 min_def nat_le_linear)

lemma rx_ends_bounds:
  "(q, g1) \<in> set (rx_ends r s (p, g)) \<Longrightarrow> p \<le> q \<and> (p \<le> length s \<longrightarrow> q \<le> length s)"
proof (induction r arbitrary: p g q g1)
  case (Lit l)
  then have t: "take (length l) (drop p s) = l" and q: "q = p + length l"
    by (auto split: if_splits)
  from take_eq_length[OF t] have "length l \<le> length s - p" by simp
  with q show ?case by auto
next
  case (Seq a b)
  then obtain m gm where "(m, gm) \<in> set (rx_ends a s (p, g))" "(q, g1) \<in> set (rx_ends b s (m, gm))"
    by auto
  with Seq.IH show ?case by fastforce
next
  case (Alt a b)
  then show ?case by auto
next
  case (Star c)
  then have "q \<in> set (run_ends c (drop p s) p)" by auto
  from run_ends_bounds[OF this] show ?case by auto
next
  case (StarLazy c)
  then have "q \<in> set (run_ends c (drop p s) p)" by auto
  from run_ends_bounds[OF this] show ?case by auto
next
  case (PlusLazy c)
  then have "q \<in> set (tl (run_ends c (drop p s) p))" by auto
  then have "q \<in> set (run_ends c (drop p s) p)" by (metis list.sel(2) list.set_sel(2))
  from run_ends_bounds[OF this] show ?case by auto
next
  case (Rep c lo hi)
  then have "q \<in> set (drop lo (take (Suc hi) (run_ends c (drop p s) p)))" by auto
  then have "q \<in> set (run_ends c (drop p s) p)" by (meson in_set_dropD in_set_takeD)
  from run_ends_bounds[OF this] show ?case by auto
next
  case (Group i r)
  then show ?case by auto
next
  case (Backref i)
  then obtain a b where "q = p + length (take (b - a) (drop a s))"
    and t: "take (length (take (b - a) (drop a s))) (drop p s) = take (b - a) (drop a s)"
    by (auto simp: Let_def split: option.splits if_splits)
  from take_eq_length[OF t] have "length (take (b - a) (drop a s)) \<le> length s - p"
    by simp
  with \<open>q = _\<close> show ?case by (auto; arith)
qed (auto split: if_splits)

lemma rx_ends_lit_head:
  assumes "(q, g1) \<in> set (rx_ends (Seq (Lit (c # l)) r) s (p, g))"
  shows "p < length s \<and> s ! p = c \<and> Suc p \<le> q \<and> q \<le> length s"
proof -
  from assms have t: "take (Suc (length l)) (drop p s) = c # l"
    and r: "(q, g1) \<in> set (rx_ends r s (Suc (p + length l), g))"
    by (auto split: if_splits)
  from take_eq_length[OF t] have le: "Suc (p + length l) \<le> length s" by simp
  then have "p < length s" by simp
  moreover have "s ! p = c"
  proof -
    have "drop p s \<noteq> []" using \<open>p < length s\<close> by simp
    then have "hd (drop p s) = c" using t by (cases "drop p s") auto
    then show ?thesis using \<open>p < length s\<close> by (simp add: hd_drop_conv_nth)
  qed
  moreover from rx_ends_bounds[OF r] le have "Suc p \<le> q" "q \<le> length s" by auto
  ultimately show ?thesis by simp
qed

lemma kind_rx_match:
  assumes "(q, g1) \<in> set (rx_ends (kind_rx k) s (p, g))"
  shows "p < length s \<and> s ! p = CHR ''{'' \<and> Suc p \<le> q \<and> q \<le> length s"
proof (cases k)
  case Parameter_kind
  with assms show ?thesis
    unfolding Parameter_kind kind_rx.simps TEMPLATE_PARAMETER_REGEX_def seqs.simps
    by (intro rx_ends_lit_head)
next
  case ParserFunction_kind
  with assms show ?thesis
    unfolding ParserFunction_kind kind_rx.simps PARSER_FUNCTION_REGEX_def seqs.simps
    by (intro rx_ends_lit_head)
next
  case Template_kind
  from assms have
    "(q, g1) \<in> set (rx_ends (Seq (TEMPLATE_PATTERN 1) (NotAhead (Lit ''}''))) s (p, g))
     \<or> (q, g1) \<in> set (rx_ends (Seq (NotBehind (\<lambda>c. c = CHR ''{'')) (TEMPLATE_PATTERN 2)) s (p, g))"
    unfolding Template_kind kind_rx.simps TEMPLATE_NOT_PARAM_REGEX_def by simp
  then show ?thesis
  proof
    assume "(q, g1) \<in> set (rx_ends (Seq (TEMPLATE_PATTERN 1) (NotAhead (Lit ''}''))) s (p, g))"
    then obtain m gm where a: "(m, gm) \<in> set (rx_ends (TEMPLATE_PATTERN 1) s (p, g))"
      and b: "(q, g1) \<in> set (rx_ends (NotAhead (Lit ''}'')) s (m, gm))"
      by auto
    from b have "q = m" by (auto split: if_splits)
    with a have "(q, gm) \<in> set (rx_ends (TEMPLATE_PATTERN 1) s (p, g))" by simp
    then show ?thesis
      unfolding TEMPLATE_PATTERN_def seqs.simps by (intro rx_ends_lit_head)
  next
    assume "(q, g1) \<in> set (rx_ends (Seq (NotBehind (\<lambda>c. c = CHR ''{'')) (TEMPLATE_PATTERN 2)) s (p, g))"
    then have "(q, g1) \<in> set (rx_ends (TEMPLATE_PATTERN 2) s (p, g))"
      by (auto split: if_splits)
    then show ?thesis
      unfolding TEMPLATE_PATTERN_def seqs.simps by (intro rx_ends_lit_head)
  qed
qed

lemma rx_match_at_mem:
  "rx_match_at r s p = Some (a, b, g) \<Longrightarrow> a = p \<and> (b, g) \<in> set (rx_ends r s (p, []))"
  by (auto simp: rx_match_at_def split: list.splits)

lemma finditer_from_match:
  "m \<in> set (finditer_from r s p) \<Longrightarrow>
     \<exists>a b g. m = (a, b, g) \<and> p \<le> a \<and> rx_match_at r s a = Some (a, b, g)"
proof (induction r s p rule: finditer_from.induct)
  case (1 r s p)
  show ?case
  proof (cases "length s < p")
    case True
    with 1(3) show ?thesis by (subst (asm) finditer_from.simps) simp
  next
    case False
    note le = this
    show ?thesis
    proof (cases "rx_match_at r s p")
      case None
      with 1(3) le have "m \<in> set (finditer_from r s (Suc p))"
        by (subst (asm) finditer_from.simps) simp
      from 1(1)[OF le None this]
      obtain a b g where "m = (a, b, g)" "Suc p \<le> a" "rx_match_at r s a = Some (a, b, g)"
        by blast
      then show ?thesis by (intro exI[of _ a] exI[of _ b] exI[of _ g]) simp
    next
      case (Some x)
      obtain a q g where x: "x = (a, q, g)" by (cases x)
      from rx_match_at_mem[OF Some[unfolded x]] have ap: "a = p" by simp
      from 1(3) le Some x
      have "m = (a, q, g) \<or> m \<in> set (finditer_from r s (if p < q then q else Suc p))"
        by (subst (asm) finditer_from.simps) simp
      then show ?thesis
      proof
        assume "m = (a, q, g)"
        then show ?thesis using Some x ap by auto
      next
        assume "m \<in> set (finditer_from r s (if p < q then q else Suc p))"
        from 1(2)[OF le Some x[symmetric] refl this]
        obtain a' b' g' where "m = (a', b', g')" "(if p < q then q else Suc p) \<le> a'"
          "rx_match_at r s a' = Some (a', b', g')" by blast
        then show ?thesis by (fastforce split: if_splits)
      qed
    qed
  qed
qed


subsection \<open>Masking removes braces\<close>

lemma mask_delims_le: "brace_count (mask_delims k g) \<le> brace_count g"
proof -
  have "brace_count (py_slice g (int k) (- int k)) \<le> brace_count g"
    unfolding py_slice_def Let_def
    by (meson brace_count_drop_le brace_count_take_le order_trans)
  then show ?thesis by (simp add: mask_delims_def)
qed

lemma mask_delims_less:
  assumes "g \<noteq> []" and "hd g = CHR ''{''" and "0 < k"
  shows "brace_count (mask_delims k g) < brace_count g"
proof -
  let ?a = "norm_index (length g) (int k)"
  have a: "1 \<le> ?a" using assms(1,3) by (cases g) (auto simp: norm_index_def)
  have "brace_count (py_slice g (int k) (- int k)) \<le> brace_count (drop ?a g)"
    unfolding py_slice_def Let_def by (rule brace_count_take_le)
  also have "\<dots> \<le> brace_count (drop 1 g)" using a by (rule brace_count_drop_mono)
  also have "\<dots> < brace_count g" using assms(1,2) by (cases g) (auto simp: brace_count_Cons)
  finally show ?thesis by (simp add: mask_delims_def)
qed

lemma foldl_replace_le:
  assumes "\<And>g. brace_count (f g) \<le> brace_count g"
  shows "brace_count (foldl (\<lambda>cur m. str_replace cur (match_text s m) (f (match_text s m))) cur ms)
           \<le> brace_count cur"
proof (induction ms arbitrary: cur)
  case Nil
  show ?case by simp
next
  case (Cons m ms)
  have "brace_count (str_replace cur (match_text s m) (f (match_text s m))) \<le> brace_count cur"
    by (intro str_replace_le assms)
  with Cons[of "str_replace cur (match_text s m) (f (match_text s m))"] show ?case by simp
qed


lemma kind_width_pos: "0 < kind_width k"
  by (cases k) auto

lemma finditer_kind_match:
  assumes "(a, b, g) \<in> set (finditer (kind_rx k) s)"
  shows "a < length s \<and> s ! a = CHR ''{'' \<and> a < b \<and> b \<le> length s"
proof -
  from finditer_from_match[OF assms[unfolded finditer_def]]
  have "rx_match_at (kind_rx k) s a = Some (a, b, g)" by auto
  from rx_match_at_mem[OF this] have "(b, g) \<in> set (rx_ends (kind_rx k) s (a, []))" by simp
  from kind_rx_match[OF this] show ?thesis by auto
qed

lemma mask_kind_less:
  assumes "finditer (kind_rx k) s \<noteq> []"
  shows "brace_count (mask_matches (mask_delims (kind_width k)) s (finditer (kind_rx k) s))
           < brace_count s"
proof -
  from assms obtain m ms where ms: "finditer (kind_rx k) s = m # ms"
    by (cases "finditer (kind_rx k) s") auto
  obtain a b g where m: "m = (a, b, g)" by (cases m)
  have "(a, b, g) \<in> set (finditer (kind_rx k) s)" using ms m by simp
  from finditer_kind_match[OF this]
  have f: "a < length s" "s ! a = CHR ''{''" "a < b" "b \<le> length s" by auto
  let ?g = "match_text s m"
  have g: "?g = take (b - a) (drop a s)" by (simp add: match_text_def m)
  have len: "length ?g = b - a" using f by (simp add: g)
  have gne: "?g \<noteq> []" using f len by auto
  have hd: "hd ?g = CHR ''{''"
    using f by (simp add: g hd_drop_conv_nth)
  have occ: "take (length ?g) (drop a s) = ?g" by (subst len) (simp add: g)
  have less: "brace_count (mask_delims (kind_width k) ?g) < brace_count ?g"
    using gne hd kind_width_pos by (rule mask_delims_less)
  have first: "brace_count (str_replace s ?g (mask_delims (kind_width k) ?g)) < brace_count s"
    using gne less occ by (rule str_replace_less)
  have "brace_count (mask_matches (mask_delims (kind_width k)) s (m # ms))
          \<le> brace_count (str_replace s ?g (mask_delims (kind_width k) ?g))"
    unfolding mask_matches_def foldl_Cons
    by (rule foldl_replace_le) (rule mask_delims_le)
  with first show ?thesis by (simp add: ms)
qed

termination mask_loop
  by (relation "measure (\<lambda>(k, s, sps). brace_count s)") (auto simp: mask_kind_less)

declare mask_loop.simps [simp del]

lemma mask_loop_count:
  "mask_loop k s sps = (found, s1, sps1)
   \<Longrightarrow> brace_count s1 \<le> brace_count s \<and> (found \<longrightarrow> brace_count s1 < brace_count s)"
proof (induction k s sps arbitrary: found s1 sps1 rule: mask_loop.induct)
  case (1 k s sps)
  show ?case
  proof (cases "finditer (kind_rx k) s = []")
    case True
    with 1(2) show ?thesis by (subst (asm) mask_loop.simps) (simp add: Let_def)
  next
    case False
    let ?s = "mask_matches (mask_delims (kind_width k)) s (finditer (kind_rx k) s)"
    let ?sps = "sps @ map match_span (finditer (kind_rx k) s)"
    obtain f2 s2 sps2 where r: "mask_loop k ?s ?sps = (f2, s2, sps2)"
      by (cases "mask_loop k ?s ?sps") auto
    from 1(1)[OF refl False r] have "brace_count s2 \<le> brace_count ?s" by simp
    moreover have "brace_count ?s < brace_count s" using False by (rule mask_kind_less)
    moreover have "s1 = s2" using 1(2) False r
      by (subst (asm) mask_loop.simps) (simp add: Let_def)
    ultimately show ?thesis by simp
  qed
qed

subsection \<open>The substitutions of single braces\<close>

lemma sub_from_le:
  assumes "brace_count repl = 0" and "pos \<le> p"
  shows "brace_count (sub_from s pos (finditer_from r s p) repl) \<le> brace_count (drop pos s)"
  using assms(2)
proof (induction r s p arbitrary: pos rule: finditer_from.induct)
  case (1 r s p)
  show ?case
  proof (cases "length s < p")
    case True
    then show ?thesis by (subst finditer_from.simps) simp
  next
    case False
    note le = this
    show ?thesis
    proof (cases "rx_match_at r s p")
      case None
      have "pos \<le> Suc p" using 1(3) by simp
      from 1(1)[OF le None this] show ?thesis
        using le None by (subst finditer_from.simps) simp
    next
      case (Some x)
      obtain a q g where x: "x = (a, q, g)" by (cases x)
      from rx_match_at_mem[OF Some[unfolded x]]
      have ap: "a = p" and mem: "(q, g) \<in> set (rx_ends r s (p, []))" by auto
      from rx_ends_bounds[OF mem] have pq: "p \<le> q" by simp
      let ?n = "if p < q then q else Suc p"
      have "q \<le> ?n" using pq by auto
      from 1(2)[OF le Some x[symmetric] refl this]
      have ih: "brace_count (sub_from s q (finditer_from r s ?n) repl) \<le> brace_count (drop q s)" .
      have "finditer_from r s p = (a, q, g) # finditer_from r s ?n"
        using le Some x by (subst finditer_from.simps) simp
      then have "brace_count (sub_from s pos (finditer_from r s p) repl)
                = brace_count (take (p - pos) (drop pos s))
                  + brace_count (sub_from s q (finditer_from r s ?n) repl)"
        using assms(1) ap by simp
      also have "\<dots> \<le> brace_count (take (p - pos) (drop pos s)) + brace_count (drop q s)"
        using ih by simp
      also have "\<dots> \<le> brace_count (take (p - pos) (drop pos s)) + brace_count (drop p s)"
        using brace_count_drop_mono[OF pq] by simp
      also have "\<dots> = brace_count (drop pos s)"
      proof -
        have "drop p s = drop (p - pos) (drop pos s)" using 1(3) by simp
        then show ?thesis by (metis brace_count_take_drop)
      qed
      finally show ?thesis .
    qed
  qed
qed

lemma re_sub_le: "brace_count (re_sub r ''_'' s) \<le> brace_count s"
  using sub_from_le[of "''_''" 0 0 s r] by (simp add: re_sub_def finditer_def brace_count_Cons)

lemma dropWhile_neq_Cons:
  assumes "c \<in> set s"
  shows "dropWhile (\<lambda>x. x \<noteq> c) s = c # tl (dropWhile (\<lambda>x. x \<noteq> c) s)"
proof -
  let ?d = "dropWhile (\<lambda>x. x \<noteq> c) s"
  have ne: "?d \<noteq> []" using assms by (auto simp: dropWhile_eq_Nil_conv)
  from hd_dropWhile[OF ne] have "hd ?d = c" by simp
  with ne show ?thesis by (cases ?d) auto
qed

lemma str_partition_concat:
  assumes "str_partition s c = (h, sep, t)"
  shows "h @ sep @ t = s"
proof (cases "c \<in> set s")
  case False
  with assms show ?thesis by (simp add: str_partition_def)
next
  case True
  let ?d = "dropWhile (\<lambda>x. x \<noteq> c) s"
  from assms True have "h @ sep @ t = takeWhile (\<lambda>x. x \<noteq> c) s @ c # tl ?d"
    by (auto simp: str_partition_def)
  also have "\<dots> = takeWhile (\<lambda>x. x \<noteq> c) s @ ?d"
    using dropWhile_neq_Cons[OF True] by simp
  finally show ?thesis by simp
qed

lemma str_rpartition_concat:
  assumes "str_rpartition s c = (h, sep, t)"
  shows "h @ sep @ t = s"
proof (cases "c \<in> set s")
  case False
  with assms show ?thesis by (simp add: str_rpartition_def)
next
  case True
  let ?d = "dropWhile (\<lambda>x. x \<noteq> c) (rev s)"
  let ?t = "takeWhile (\<lambda>x. x \<noteq> c) (rev s)"
  have d: "?d = c # tl ?d" using True by (intro dropWhile_neq_Cons) simp
  from assms True have "h @ sep @ t = rev (tl ?d) @ c # rev ?t"
    by (auto simp: str_rpartition_def)
  also have "\<dots> = rev (?t @ c # tl ?d)" by simp
  also have "\<dots> = rev (?t @ ?d)" using d by simp
  finally show ?thesis by simp
qed

lemma mask_single_braces_le: "brace_count (mask_single_braces s) \<le> brace_count s"
proof -
  let ?s1 = "re_sub LONE_OPEN_REGEX ''_'' s"
  let ?s2 = "re_sub LONE_CLOSE_REGEX ''_'' ?s1"
  obtain h1 sep1 t1 where p1: "str_rpartition ?s2 (CHR ''}'') = (h1, sep1, t1)"
    by (cases "str_rpartition ?s2 (CHR ''}'')") auto
  let ?s3 = "h1 @ sep1 @ str_replace t1 ''{'' ''_''"
  obtain h2 sep2 t2 where p2: "str_partition ?s3 (CHR ''{'') = (h2, sep2, t2)"
    by (cases "str_partition ?s3 (CHR ''{'')") auto
  have r: "mask_single_braces s = str_replace h2 ''}'' ''_'' @ sep2 @ t2"
    by (simp add: mask_single_braces_def Let_def p1 p2)
  have "brace_count (str_replace h2 ''}'' ''_'' @ sep2 @ t2) \<le> brace_count (h2 @ sep2 @ t2)"
    using str_replace_le[of "''_''" "''}''" h2] by (simp add: brace_count_Cons)
  also have "\<dots> = brace_count ?s3" using str_partition_concat[OF p2] by simp
  also have "\<dots> \<le> brace_count (h1 @ sep1 @ t1)"
    using str_replace_le[of "''_''" "''{''" t1] by (simp add: brace_count_Cons)
  also have "\<dots> = brace_count ?s2" using str_rpartition_concat[OF p1] by simp
  also have "\<dots> \<le> brace_count ?s1" by (rule re_sub_le)
  also have "\<dots> \<le> brace_count s" by (rule re_sub_le)
  finally show ?thesis using r by simp
qed

lemma brace_pass_count:
  assumes "brace_pass s sps = (found, s1, sps1)"
  shows "brace_count s1 \<le> brace_count s \<and> (found \<longrightarrow> brace_count s1 < brace_count s)"
proof -
  obtain ps pfs ts where sps: "sps = (ps, pfs, ts)" by (cases sps)
  obtain f1 a1 ps1 where l1: "mask_loop Parameter_kind (mask_single_braces s) ps = (f1, a1, ps1)"
    by (cases "mask_loop Parameter_kind (mask_single_braces s) ps") auto
  obtain f2 a2 pfs1 where l2: "mask_loop ParserFunction_kind a1 pfs = (f2, a2, pfs1)"
    by (cases "mask_loop ParserFunction_kind a1 pfs") auto
  obtain f3 a3 ts1 where l3: "mask_loop Template_kind a2 ts = (f3, a3, ts1)"
    by (cases "mask_loop Template_kind a2 ts") auto
  from assms have r: "found = (f1 \<or> f2 \<or> f3)" "s1 = a3"
    by (auto simp: brace_pass_def sps l1 l2 l3)
  note c1 = mask_loop_count[OF l1] and c2 = mask_loop_count[OF l2] and c3 = mask_loop_count[OF l3]
  have c0: "brace_count (mask_single_braces s) \<le> brace_count s" by (rule mask_single_braces_le)
  show ?thesis using r c0 c1 c2 c3 by auto
qed

lemma brace_pass_less:
  "(True, s1, sps1) = brace_pass s sps \<Longrightarrow> brace_count s1 < brace_count s"
  using brace_pass_count[of s sps True s1 sps1] by simp

termination brace_loop
  by (relation "measure (\<lambda>(s, sps). brace_count s)") (auto intro: brace_pass_less)

termination brace_passes
  by (relation "measure (\<lambda>(s, sps). brace_count s)") (auto intro: brace_pass_less)

declare brace_loop.simps [simp del] brace_passes.simps [simp del]


section \<open>Termination of the loops of the splitter\<close>

lemma find_from_bounds:
  "find_from xs c i = - 1
   \<or> (int i \<le> find_from xs c i \<and> find_from xs c i < int i + int (length xs))"
proof (induction xs arbitrary: i)
  case Nil
  show ?case by simp
next
  case (Cons x xs)
  from Cons[of "Suc i"] show ?case by auto
qed

lemma str_find_bounds:
  "str_find s c start = r \<Longrightarrow> r = - 1 \<or> (start \<le> r \<and> 0 \<le> r \<and> r < int (length s))"
proof -
  assume a: "str_find s c start = r"
  let ?n = "norm_index (length s) start"
  from find_from_bounds[of "drop ?n s" c ?n] a
  have "r = - 1 \<or> (int ?n \<le> r \<and> r < int ?n + int (length (drop ?n s)))"
    by (simp add: str_find_def)
  moreover have "?n \<le> length s" by (auto simp: norm_index_def)
  moreover have "start \<le> int ?n \<or> int (length s) \<le> int ?n" by (auto simp: norm_index_def)
  ultimately show ?thesis by auto
qed

lemma in_spans_strictly_inside:
  "in_spans (strictly_inside self allspans) (fst self + index) \<Longrightarrow> 0 < index"
  by (auto simp: in_spans_def strictly_inside_def list_ex_iff)

termination skip_subspans
proof (relation "measure (\<lambda>(allspans, self, string, c, index).
          if index < 0 then 0 else Suc (length string - nat index))")
  show "wf (measure (\<lambda>(allspans, self, string, c, index).
          if index < 0 then 0 else Suc (length string - nat index)))" by simp
next
  fix allspans :: "span list" and self :: span and string :: string and c :: char and index :: int
  assume a: "in_spans (strictly_inside self allspans) (fst self + index)"
  from in_spans_strictly_inside[OF a] have pos: "0 < index" .
  let ?r = "str_find string c (index + 1)"
  from str_find_bounds[OF refl, of string c "index + 1"]
  have "?r = - 1 \<or> (index + 1 \<le> ?r \<and> 0 \<le> ?r \<and> ?r < int (length string))" .
  then show "((allspans, self, string, c, ?r), (allspans, self, string, c, index))
      \<in> measure (\<lambda>(allspans, self, string, c, index).
          if index < 0 then 0 else Suc (length string - nat index))"
    using pos by auto
qed

declare skip_subspans.simps [simp del]

lemma skip_subspans_minus1: "skip_subspans allspans self string c (- 1) = - 1"
proof -
  have "\<not> in_spans (strictly_inside self allspans) (fst self + - 1)"
    using in_spans_strictly_inside[of self allspans "- 1"] by auto
  then show ?thesis by (subst skip_subspans.simps) simp
qed

lemma skip_subspans_bounds:
  "i = - 1 \<or> (0 \<le> i \<and> i < int (length string))
   \<Longrightarrow> skip_subspans allspans self string c i = r
   \<Longrightarrow> r = - 1 \<or> (i \<le> r \<and> 0 \<le> r \<and> r < int (length string))"
proof (induction allspans self string c i arbitrary: r rule: skip_subspans.induct)
  case (1 allspans self string c index)
  show ?case
  proof (cases "in_spans (strictly_inside self allspans) (fst self + index)")
    case False
    with 1(3) have "r = index" by (subst (asm) skip_subspans.simps) simp
    with 1(2) show ?thesis by auto
  next
    case True
    let ?j = "str_find string c (index + 1)"
    from str_find_bounds[OF refl, of string c "index + 1"]
    have j: "?j = - 1 \<or> (index + 1 \<le> ?j \<and> 0 \<le> ?j \<and> ?j < int (length string))" .
    then have j': "?j = - 1 \<or> (0 \<le> ?j \<and> ?j < int (length string))" by auto
    from 1(3) True have r: "skip_subspans allspans self string c ?j = r"
      by (subst (asm) skip_subspans.simps) simp
    show ?thesis
    proof (cases "?j = - 1")
      case True
      with r show ?thesis by (simp add: skip_subspans_minus1)
    next
      case False
      with 1(1)[OF \<open>in_spans _ _\<close> j' r] j show ?thesis by auto
    qed
  qed
qed

termination splitspans_loop
proof (relation "measure (\<lambda>(allspans, self, string, c, findstart, results).
          nat (int (length string) + 1 - findstart))")
  show "wf (measure (\<lambda>(allspans, self, string, c, findstart, results).
          nat (int (length string) + 1 - findstart)))" by simp
next
  fix allspans :: "span list" and self :: span and string :: string and c :: char
    and findstart :: int and results :: "span list" and x :: int
  assume x: "x = skip_subspans allspans self string c (str_find string c findstart)"
    and ne: "x \<noteq> - 1"
  let ?i = "str_find string c findstart"
  from str_find_bounds[OF refl, of string c findstart]
  have i: "?i = - 1 \<or> (findstart \<le> ?i \<and> 0 \<le> ?i \<and> ?i < int (length string))" .
  then have "?i = - 1 \<or> (0 \<le> ?i \<and> ?i < int (length string))" by auto
  from skip_subspans_bounds[OF this x[symmetric]] ne
  have "?i \<le> x" "0 \<le> x" "x < int (length string)" by auto
  moreover have "findstart \<le> x"
  proof (cases "?i = - 1")
    case True
    with x ne show ?thesis by (simp add: skip_subspans_minus1)
  next
    case False
    with i \<open>?i \<le> x\<close> show ?thesis by auto
  qed
  ultimately show "((allspans, self, string, c, x + 1, results @ [(fst self + findstart, fst self + x)]),
       (allspans, self, string, c, findstart, results))
      \<in> measure (\<lambda>(allspans, self, string, c, findstart, results).
          nat (int (length string) + 1 - findstart))"
    by auto
qed

declare splitspans_loop.simps [simp del]

section \<open>Properties of the tokenizer and of the section builder\<close>

subsection \<open>The masks before the loop\<close>




subsection \<open>The cascade over the sections built so far\<close>

lemma level_at_update:
  "j \<noteq> i \<Longrightarrow> level_at buf (sp[i := v]) j = level_at buf sp j"
  by (simp add: level_at_def)

lemma cascade_length [simp]: "length (cascade buf lvl mend sp xs) = length sp"
  by (induction xs arbitrary: sp) auto

lemma cascade_nth:
  assumes "distinct xs" and "\<forall>x \<in> set xs. x < length sp" and "i < length sp"
  shows "cascade buf lvl mend sp xs ! i =
           (if i \<in> set (takeWhile (\<lambda>j. level_at buf sp j < lvl) xs)
            then (fst (sp ! i), mend) else sp ! i)"
  using assms
proof (induction xs arbitrary: sp)
  case Nil
  show ?case by simp
next
  case (Cons x xs)
  show ?case
  proof (cases "level_at buf sp x < lvl")
    case False
    then show ?thesis by simp
  next
    case True
    let ?sp = "sp[x := (fst (sp ! x), mend)]"
    have tw: "takeWhile (\<lambda>j. level_at buf ?sp j < lvl) xs
                = takeWhile (\<lambda>j. level_at buf sp j < lvl) xs"
    proof (rule takeWhile_cong[OF refl])
      fix j assume "j \<in> set xs"
      then have "j \<noteq> x" using Cons.prems(1) by auto
      then show "(level_at buf ?sp j < lvl) = (level_at buf sp j < lvl)"
        by (simp add: level_at_update)
    qed
    have ih: "cascade buf lvl mend ?sp xs ! i =
           (if i \<in> set (takeWhile (\<lambda>j. level_at buf ?sp j < lvl) xs)
            then (fst (?sp ! i), mend) else ?sp ! i)"
      using Cons.prems by (intro Cons.IH) auto
    have notin: "x \<notin> set (takeWhile (\<lambda>j. level_at buf sp j < lvl) xs)"
      using Cons.prems(1) by (auto dest: set_takeWhileD)
    show ?thesis
    proof (cases "i = x")
      case True
      then show ?thesis using ih tw notin \<open>level_at buf sp x < lvl\<close> Cons.prems(3) by simp
    next
      case False
      then show ?thesis using ih tw \<open>level_at buf sp x < lvl\<close> by simp
    qed
  qed
qed

lemma index_of_less: "x \<in> set xs \<Longrightarrow> index_of xs x < length xs"
  unfolding index_of_def by (induction xs) auto

lemma nth_index_of: "x \<in> set xs \<Longrightarrow> xs ! index_of xs x = x"
  unfolding index_of_def by (induction xs) auto

lemma mem_append_new: "mspan \<in> set (append_new sspans mspan)"
  by (simp add: append_new_def)


section \<open>The spans the tokenizer records\<close>

subsection \<open>A match is at least as long as its pattern\<close>










subsection \<open>The masks keep the length\<close>










subsection \<open>The substitutions of single braces keep the length\<close>





subsection \<open>The spans of the tokenizer lie in the text\<close>






section \<open>The passes of the tokenizer and the spans it records\<close>







subsection \<open>The text with a parser function and a parameter that cross\<close>





section \<open>Properties of the rebase engine\<close>

subsection \<open>Slices and lookups inside the buffer\<close>

lemma py_index_mem: "py_index xs i = Inr x \<Longrightarrow> x \<in> set xs"
  by (auto simp: py_index_def Let_def split: if_splits)

lemma py_index_map: "py_index (map f xs) i = map_sum id f (py_index xs i)"
proof -
  have "nat i < length xs" if "0 \<le> i" "i < int (length xs)" using that by linarith
  moreover have "nat (int (length xs) + i) < length xs" if "i < 0" "- int (length xs) \<le> i"
    using that by linarith
  ultimately show ?thesis by (auto simp: py_index_def)
qed

lemma get_span_ok:
  assumes "spans_ok d" and "get_span d n = Inr sp"
  shows "span_ok (length (lststr d)) sp"
proof (cases n)
  case Root
  with assms(2) show ?thesis by (auto simp: span_ok_def)
next
  case (Indexed k i)
  with assms(2) obtain sps where m: "map_of (spans d) k = Some sps"
    and ix: "py_index sps i = Inr sp"
    by (auto split: option.splits)
  from m have "(k, sps) \<in> set (spans d)" by (rule map_of_SomeD)
  with assms(1) have "list_all (span_ok (length (lststr d))) sps"
    by (auto simp: spans_ok_def list_all_iff)
  with py_index_mem[OF ix] show ?thesis by (simp add: list_all_iff)
qed

lemma length_py_slice_ok:
  "span_ok (length xs) (p, q) \<Longrightarrow> int (length (py_slice xs p q)) = q - p"
  by (auto simp: span_ok_def py_slice_def norm_index_def Let_def min_def)

lemma py_slice_to_ok:
  "0 \<le> p \<Longrightarrow> p \<le> int (length xs) \<Longrightarrow> py_slice_to xs p = take (nat p) xs"
  by (auto simp: py_slice_to_def norm_index_def min_def)

lemma py_slice_from_ok:
  "0 \<le> q \<Longrightarrow> q \<le> int (length xs) \<Longrightarrow> py_slice_from xs q = drop (nat q) xs"
  by (auto simp: py_slice_from_def norm_index_def min_def)

subsection \<open>One span under growth and shrink\<close>

lemma extend_span_ok:
  "span_ok n sp \<Longrightarrow> 0 \<le> a \<Longrightarrow> int m = int n + a \<Longrightarrow> span_ok m (extend_span p a sp)"
  by (cases sp) (auto simp: span_ok_def extend_span_def)

lemma shrink_span_ok:
  "span_ok n sp \<Longrightarrow> 0 \<le> p \<Longrightarrow> p \<le> r \<Longrightarrow> r \<le> int n \<Longrightarrow> int m = int n - (r - p)
     \<Longrightarrow> span_ok m (shrink_span p r sp)"
  by (cases sp) (auto simp: span_ok_def shrink_span_def Let_def)

lemma shrink_span_inside:
  "p \<le> s \<Longrightarrow> s \<le> e \<Longrightarrow> e \<le> r \<Longrightarrow> shrink_span p r (s, e) = (p, p)"
  by (auto simp: shrink_span_def Let_def)

subsection \<open>The table under a map over its spans\<close>

lemma slots_map_spans: "slots (map_spans f tbl) = slots tbl"
  by (induction tbl) (auto simp: slots_def map_spans_def)

lemma list_all_map_spans:
  "list_all (\<lambda>(k, sps). list_all P sps) tbl \<Longrightarrow> (\<And>sp. P sp \<Longrightarrow> Q (f sp))
   \<Longrightarrow> list_all (\<lambda>(k, sps). list_all Q sps) (map_spans f tbl)"
  by (induction tbl) (auto simp: map_spans_def list_all_iff)

lemma nth_map_spans:
  "j < length tbl \<Longrightarrow> i < length (snd (tbl ! j))
   \<Longrightarrow> snd (map_spans f tbl ! j) ! i = f (snd (tbl ! j) ! i)"
  by (simp add: map_spans_def case_prod_unfold)

lemma map_spans_ident: "(\<And>sp. f sp = sp) \<Longrightarrow> map_spans f tbl = tbl"
  by (induction tbl) (auto simp: map_spans_def map_idI)

lemma map_of_map_spans: "map_of (map_spans f tbl) k = map_option (map f) (map_of tbl k)"
  by (induction tbl) (auto simp: map_spans_def)

lemma get_span_map_spans:
  "get_span d (Indexed k i) = Inr sp
   \<Longrightarrow> get_span (d\<lparr>lststr := b, spans := map_spans f (spans d)\<rparr>) (Indexed k i) = Inr (f sp)"
  by (auto simp: map_of_map_spans py_index_map split: option.splits)

lemma get_span_start_lststr:
  "get_span d n = Inr (p, q) \<Longrightarrow> get_span (d\<lparr>lststr := b\<rparr>) n = Inr (p1, q1) \<Longrightarrow> p1 = p"
  by (cases n) auto

subsection \<open>One call of the setter\<close>

lemma set_string_cases:
  assumes ok: "spans_ok d" and st: "set_string d n newstring = Inr d2"
  obtains p q where "get_span d n = Inr (p, q)" "span_ok (length (lststr d)) (p, q)"
    "lststr d2 = take (nat p) (lststr d) @ newstring @ drop (nat q) (lststr d)"
    "length_delta d n newstring = int (length newstring) - (q - p)"
    "spans d2 =
       (if int (length newstring) > q - p
          then extend_span_update p (int (length newstring) - (q - p)) (spans d)
        else if int (length newstring) < q - p
          then shrink_span_update p (p + (q - p) - int (length newstring)) (spans d)
        else spans d)"
proof -
  from st obtain p q where gs: "get_span d n = Inr (p, q)"
    by (auto simp: set_string_def node_string_def split: sum.splits)
  from get_span_ok[OF ok gs] have sok: "span_ok (length (lststr d)) (p, q)" .
  then have b: "0 \<le> p" "p \<le> q" "q \<le> int (length (lststr d))" by (auto simp: span_ok_def)
  have ns: "node_string d n = Inr (py_slice (lststr d) p q)"
    using gs by (simp add: node_string_def)
  have len: "int (length (py_slice (lststr d) p q)) = q - p"
    using sok by (rule length_py_slice_ok)
  have tk: "py_slice_to (lststr d) p = take (nat p) (lststr d)"
    using b by (intro py_slice_to_ok) auto
  have fr: "py_slice_from (lststr d) q = drop (nat q) (lststr d)"
    using b by (intro py_slice_from_ok) auto
  have gsp: "\<exists>q'. get_span (d\<lparr>lststr := b'\<rparr>) n = Inr (p, q')" for b'
    using gs b by (cases n) auto
  show ?thesis
  proof (rule that[OF gs sok])
    show "lststr d2 = take (nat p) (lststr d) @ newstring @ drop (nat q) (lststr d)"
      using st gs ns len tk fr gsp
      by (auto simp: set_string_def Let_def split: sum.splits if_splits)
    show "length_delta d n newstring = int (length newstring) - (q - p)"
      using ns len by (simp add: length_delta_def)
    show "spans d2 =
       (if int (length newstring) > q - p
          then extend_span_update p (int (length newstring) - (q - p)) (spans d)
        else if int (length newstring) < q - p
          then shrink_span_update p (p + (q - p) - int (length newstring)) (spans d)
        else spans d)"
      using st gs ns len tk fr
        gsp[of "take (nat p) (lststr d) @ newstring @ drop (nat q) (lststr d)"]
      by (auto simp: set_string_def Let_def split: sum.splits if_splits)
  qed
qed

lemma set_string_step:
  assumes ok: "spans_ok d" and st: "set_string d n newstring = Inr d2"
  shows "spans_ok d2"
    and "int (length (lststr d2)) = int (length (lststr d)) + length_delta d n newstring"
    and "slots (spans d2) = slots (spans d)"
    and "\<And>p q j i. get_span d n = Inr (p, q) \<Longrightarrow> length_delta d n newstring < 0 \<Longrightarrow>
           j < length (spans d) \<Longrightarrow> i < length (snd (spans d ! j)) \<Longrightarrow>
           p \<le> fst (snd (spans d ! j) ! i) \<Longrightarrow>
           snd (snd (spans d ! j) ! i) \<le> p - length_delta d n newstring \<Longrightarrow>
           snd (spans d2 ! j) ! i = (p, p)"
proof -
  from ok st obtain p q where
    gs: "get_span d n = Inr (p, q)" and sok: "span_ok (length (lststr d)) (p, q)" and
    buf: "lststr d2 = take (nat p) (lststr d) @ newstring @ drop (nat q) (lststr d)" and
    dl: "length_delta d n newstring = int (length newstring) - (q - p)" and
    sp: "spans d2 =
       (if int (length newstring) > q - p
          then extend_span_update p (int (length newstring) - (q - p)) (spans d)
        else if int (length newstring) < q - p
          then shrink_span_update p (p + (q - p) - int (length newstring)) (spans d)
        else spans d)"
    by (rule set_string_cases)
  from sok have b: "0 \<le> p" "p \<le> q" "q \<le> int (length (lststr d))"
    by (auto simp: span_ok_def)
  show len: "int (length (lststr d2)) = int (length (lststr d)) + length_delta d n newstring"
    using b by (auto simp: buf dl min_def)
  have all: "list_all (\<lambda>(k, sps). list_all (span_ok (length (lststr d))) sps) (spans d)"
    using ok by (simp add: spans_ok_def)
  show "spans_ok d2"
  proof -
    consider (grow) "int (length newstring) > q - p" | (shrink) "int (length newstring) < q - p"
      | (same) "int (length newstring) = q - p" by linarith
    then show ?thesis
    proof cases
      case grow
      have "list_all (\<lambda>(k, sps). list_all (span_ok (length (lststr d2))) sps)
              (map_spans (extend_span p (int (length newstring) - (q - p))) (spans d))"
        using all
      proof (rule list_all_map_spans)
        fix sp assume "span_ok (length (lststr d)) sp"
        then show "span_ok (length (lststr d2))
                     (extend_span p (int (length newstring) - (q - p)) sp)"
          using grow len dl by (intro extend_span_ok) auto
      qed
      then show ?thesis using grow sp by (simp add: spans_ok_def extend_span_update_def)
    next
      case shrink
      have "list_all (\<lambda>(k, sps). list_all (span_ok (length (lststr d2))) sps)
              (map_spans (shrink_span p (p + (q - p) - int (length newstring))) (spans d))"
        using all
      proof (rule list_all_map_spans)
        fix sp assume "span_ok (length (lststr d)) sp"
        then show "span_ok (length (lststr d2))
                     (shrink_span p (p + (q - p) - int (length newstring)) sp)"
          using shrink len dl b by (intro shrink_span_ok) auto
      qed
      then show ?thesis using shrink sp by (simp add: spans_ok_def shrink_span_update_def)
    next
      case same
      then show ?thesis using sp all len dl by (simp add: spans_ok_def)
    qed
  qed
  show "slots (spans d2) = slots (spans d)"
    by (simp add: sp extend_span_update_def shrink_span_update_def slots_map_spans)
  fix p' q' j i
  assume a: "get_span d n = Inr (p', q')" "length_delta d n newstring < 0"
    "j < length (spans d)" "i < length (snd (spans d ! j))"
    "p' \<le> fst (snd (spans d ! j) ! i)"
    "snd (snd (spans d ! j) ! i) \<le> p' - length_delta d n newstring"
  from a(1) gs have [simp]: "p' = p" "q' = q" by auto
  obtain s e where se: "snd (spans d ! j) ! i = (s, e)" by (cases "snd (spans d ! j) ! i")
  have "spans d ! j \<in> set (spans d)" using a(3) by simp
  then have "list_all (span_ok (length (lststr d))) (snd (spans d ! j))"
    using all by (auto simp: list_all_iff)
  then have "span_ok (length (lststr d)) (s, e)"
    using a(4) se by (auto simp: list_all_iff dest!: nth_mem)
  then have "s \<le> e" by (simp add: span_ok_def)
  moreover have "p \<le> s" "e \<le> p + (q - p) - int (length newstring)"
    using a(5,6) se dl by auto
  ultimately have "shrink_span p (p + (q - p) - int (length newstring)) (s, e) = (p, p)"
    by (intro shrink_span_inside)
  then show "snd (spans d2 ! j) ! i = (p', p')"
    using a(2,3,4) dl se sp by (simp add: shrink_span_update_def nth_map_spans)
qed

lemma set_strings_ok:
  "spans_ok d \<Longrightarrow> set_strings d calls = Inr d1 \<Longrightarrow> spans_ok d1"
proof (induction calls arbitrary: d)
  case Nil
  then show ?case by simp
next
  case (Cons c calls)
  obtain n s where c: "c = (n, s)" by (cases c)
  with Cons.prems(2) obtain dm where st: "set_string d n s = Inr dm"
    and r: "set_strings dm calls = Inr d1"
    by (auto split: sum.splits)
  from set_string_step(1)[OF Cons.prems(1) st] r show ?case by (rule Cons.IH)
qed

subsection \<open>Evaluation of the example documents\<close>

lemma spans_ok_doc_a1: "spans_ok doc_a1"
  by code_simp

lemma rename_doc_a1: "set_string doc_a1 (Indexed Key_t 0) ''{{alpha|1}}'' = Inr doc_alpha1"
  by code_simp

lemma empty_argument_doc_alpha1:
  "set_string doc_alpha1 (Indexed (Key_ta 0) 0) [] = Inr doc_alpha"
  by code_simp

subsection \<open>Sequences of calls of the setter\<close>

text \<open>
  The setter alone keeps the invariant. From a table whose spans lie inside the
  buffer, after every sequence of calls of the setter and one more call: every span
  of every category satisfies \<open>0 \<le> start \<le> end \<le> len(Buffer)\<close>; the length of the
  buffer is its previous value plus the length delta of the call; no slot of the
  table is removed; and a span that lay wholly inside the removed region
  \<open>[p, p + |delta|]\<close> of a shrinking call is the empty span \<open>(p, p)\<close> afterwards.
\<close>

theorem set_string_keeps_spans_inside_buffer:
  assumes "spans_ok d0" and "set_strings d0 calls = Inr d1"
    and "set_string d1 n newstring = Inr d2"
  shows "spans_ok d2
       \<and> int (length (lststr d2)) = int (length (lststr d1)) + length_delta d1 n newstring
       \<and> slots (spans d2) = slots (spans d1)
       \<and> (\<forall>p q j i. get_span d1 n = Inr (p, q) \<and> length_delta d1 n newstring < 0
             \<and> j < length (spans d1) \<and> i < length (snd (spans d1 ! j))
             \<and> p \<le> fst (snd (spans d1 ! j) ! i)
             \<and> snd (snd (spans d1 ! j) ! i) \<le> p - length_delta d1 n newstring
           \<longrightarrow> snd (spans d2 ! j) ! i = (p, p))"
proof -
  have ok1: "spans_ok d1" using assms(1,2) by (rule set_strings_ok)
  show ?thesis
    using set_string_step[OF ok1 assms(3)] by blast
qed

theorem set_string_keeps_spans_inside_buffer_witness:
  "spans_ok doc_a1
   \<and> set_strings doc_a1 [(Indexed Key_t 0, ''{{alpha|1}}'')] = Inr doc_alpha1
   \<and> set_string doc_alpha1 (Indexed (Key_ta 0) 0) [] = Inr doc_alpha
   \<and> spans_ok doc_alpha
   \<and> int (length (lststr doc_alpha)) = int (length (lststr doc_alpha1)) + (- 2)
   \<and> slots (spans doc_alpha) = slots (spans doc_alpha1)
   \<and> snd (spans doc_alpha ! 6) ! 0 = (7, 7)"
proof -
  have h1: "spans_ok doc_a1" by (rule spans_ok_doc_a1)
  have h2: "set_strings doc_a1 [(Indexed Key_t 0, ''{{alpha|1}}'')] = Inr doc_alpha1"
    by (simp add: rename_doc_a1)
  have h3: "set_string doc_alpha1 (Indexed (Key_ta 0) 0) [] = Inr doc_alpha"
    by (rule empty_argument_doc_alpha1)
  have dl: "length_delta doc_alpha1 (Indexed (Key_ta 0) 0) [] = - 2"
    by code_simp
  have gs: "get_span doc_alpha1 (Indexed (Key_ta 0) 0) = Inr (7, 9)"
    by code_simp
  note c = set_string_keeps_spans_inside_buffer[OF h1 h2 h3]
  from c have c1: "spans_ok doc_alpha" by blast
  from c have c2: "int (length (lststr doc_alpha)) = int (length (lststr doc_alpha1)) + (- 2)"
    unfolding dl by blast
  from c have c3: "slots (spans doc_alpha) = slots (spans doc_alpha1)" by blast
  from c have "get_span doc_alpha1 (Indexed (Key_ta 0) 0) = Inr (7, 9)
             \<and> length_delta doc_alpha1 (Indexed (Key_ta 0) 0) [] < 0
             \<and> 6 < length (spans doc_alpha1) \<and> 0 < length (snd (spans doc_alpha1 ! 6))
             \<and> 7 \<le> fst (snd (spans doc_alpha1 ! 6) ! 0)
             \<and> snd (snd (spans doc_alpha1 ! 6) ! 0)
                 \<le> 7 - length_delta doc_alpha1 (Indexed (Key_ta 0) 0) []
           \<longrightarrow> snd (spans doc_alpha ! 6) ! 0 = (7, 7)"
    by blast
  moreover have "6 < length (spans doc_alpha1) \<and> 0 < length (snd (spans doc_alpha1 ! 6))
             \<and> 7 \<le> fst (snd (spans doc_alpha1 ! 6) ! 0)
             \<and> snd (snd (spans doc_alpha1 ! 6) ! 0) \<le> 7 - (- 2)"
    by (simp add: doc_alpha1_def)
  ultimately have c4: "snd (spans doc_alpha ! 6) ! 0 = (7, 7)"
    using gs dl by simp
  show ?thesis using h1 h2 h3 c1 c2 c3 c4 by blast
qed

subsection \<open>The table after one call\<close>

lemma set_string_map_spans:
  assumes "set_string d n newstring = Inr d2" and "get_span d n = Inr (p, q)"
  shows "spans d2 = map_spans (rebase_rules p (length_delta d n newstring)) (spans d)"
proof -
  let ?old = "py_slice (lststr d) p q"
  let ?dl = "int (length newstring) - int (length ?old)"
  have ns: "node_string d n = Inr ?old" using assms(2) by (simp add: node_string_def)
  have dl: "length_delta d n newstring = ?dl" using ns by (simp add: length_delta_def)
  consider (grow) "?dl > 0" | (shrink) "?dl < 0" | (same) "?dl = 0" by linarith
  then show ?thesis
  proof cases
    case grow
    then have "spans d2 = extend_span_update p ?dl (spans d)"
      using assms ns
      by (auto simp: set_string_def Let_def split: sum.splits dest: get_span_start_lststr)
    moreover have "extend_span p ?dl sp = rebase_rules p ?dl sp" for sp
      using grow by (cases sp) (auto simp: extend_span_def rebase_rules_def)
    then have "extend_span p ?dl = rebase_rules p ?dl" by (intro ext)
    ultimately show ?thesis
      by (simp add: dl extend_span_update_def)
  next
    case shrink
    then have "spans d2 =
        shrink_span_update p (p + int (length ?old) - int (length newstring)) (spans d)"
      using assms ns
      by (auto simp: set_string_def Let_def split: sum.splits)
    moreover have "shrink_span p (p + int (length ?old) - int (length newstring)) sp
                    = rebase_rules p ?dl sp" for sp
      using shrink by (cases sp) (auto simp: shrink_span_def rebase_rules_def Let_def)
    then have "shrink_span p (p + int (length ?old) - int (length newstring))
                 = rebase_rules p ?dl"
      by (intro ext)
    ultimately show ?thesis
      by (simp add: dl shrink_span_update_def)
  next
    case same
    then have "spans d2 = spans d"
      using assms ns by (auto simp: set_string_def Let_def split: sum.splits)
    moreover have "rebase_rules p ?dl sp = sp" for sp
      using same by (cases sp) (auto simp: rebase_rules_def)
    ultimately show ?thesis
      by (simp add: dl map_spans_ident)
  qed
qed

lemma length_map_spans: "length (map_spans f tbl) = length tbl"
  by (simp add: map_spans_def)

lemma fst_nth_map_spans: "j < length tbl \<Longrightarrow> fst (map_spans f tbl ! j) = fst (tbl ! j)"
  by (simp add: map_spans_def case_prod_unfold)

lemma length_nth_map_spans:
  "j < length tbl \<Longrightarrow> length (snd (map_spans f tbl ! j)) = length (snd (tbl ! j))"
  by (simp add: map_spans_def case_prod_unfold)

lemma spans_doc_three:
  "spans doc_three =
     [(Key_p, []), (Key_pf, []), (Key_t, [(4, 11), (13, 18), (0, 13)]), (Key_wl, []),
      (Key_c, []), (Key_nw, [])]"
  by code_simp

lemma grow_doc_three: "set_string doc_three (Indexed Key_t 0) ''{{bb|c}}'' = Inr doc_three_grown"
  by code_simp

lemma shrink_doc_three: "set_string doc_three (Indexed Key_t 0) ''{{b}}'' = Inr doc_three_shrunk"
  by code_simp

lemma get_span_doc_three: "get_span doc_three (Indexed Key_t 0) = Inr (4, 11)"
  by code_simp

lemma delta_grow_doc_three: "length_delta doc_three (Indexed Key_t 0) ''{{bb|c}}'' = 1"
  by code_simp

lemma delta_shrink_doc_three: "length_delta doc_three (Indexed Key_t 0) ''{{b}}'' = - 2"
  by code_simp

section \<open>The claims\<close>

text \<open>
  C1 fails in the code. The document is \<open>{{a|{{b|c}}}}\<close>, its templates are the inner
  one (index 0) and the outer one (index 1). The argument of the outer template is
  set to the empty string: the buffer is \<open>{{a|}}\<close>, every span lies in it, and the span
  of the inner template is \<open>(3, 4)\<close>, the text \<open>|\<close>. The inner template is then asked
  for its arguments: \<open>Template.arguments\<close> takes the two closing braces off a text
  that has none and records the span \<open>(3, 2)\<close>, whose start is after its end. Writing
  \<open>z\<close> to that argument, a call of the setter with the length delta 1, gives the
  buffer \<open>{{aza|}}\<close>, which is two characters longer, and the span \<open>(3, 2)\<close> stays in
  the table.
\<close>

theorem setter_after_arguments_of_emptied_template:
  "templates doc_nested Root = Inr [Indexed Key_t 0, Indexed Key_t 1]
   \<and> template_arguments doc_nested 1 = Inr (doc_nested_outer, [Indexed (Key_ta 1) 0])
   \<and> argument_set_value doc_nested_outer (Key_ta 1) 0 [] = Inr doc_emptied
   \<and> spans_ok doc_emptied
   \<and> template_arguments doc_emptied 0 = Inr (doc_inverted, [Indexed (Key_ta 0) 0])
   \<and> get_span doc_inverted (Indexed (Key_ta 0) 0) = Inr (3, 2)
   \<and> \<not> spans_ok doc_inverted
   \<and> length_delta doc_inverted (Indexed (Key_ta 0) 0) ''z'' = 1
   \<and> set_string doc_inverted (Indexed (Key_ta 0) 0) ''z'' = Inr doc_aza
   \<and> lststr doc_aza = ''{{aza|}}''
   \<and> int (length (lststr doc_aza)) = int (length (lststr doc_inverted)) + 2
   \<and> get_span doc_aza (Indexed (Key_ta 0) 0) = Inr (3, 2)
   \<and> \<not> spans_ok doc_aza"
  by code_simp

text \<open>
  C2. A call of the setter on a node whose span starts at \<open>p\<close>, with length delta
  \<open>delta\<close>, rebases every span of every category by the case rules of the
  specification (\<open>rebase_rules\<close>): the table keeps its categories in their order,
  every category keeps the number of its spans, and the span at every place \<open>i\<close> of
  every category \<open>j\<close> is the rules applied to the span that was at that place.
\<close>

theorem set_string_rebases_by_rules:
  assumes "set_string d n newstring = Inr d2" and "get_span d n = Inr (p, q)"
  shows "length (spans d2) = length (spans d)
       \<and> (\<forall>j i. j < length (spans d) \<longrightarrow>
              fst (spans d2 ! j) = fst (spans d ! j)
            \<and> length (snd (spans d2 ! j)) = length (snd (spans d ! j))
            \<and> (i < length (snd (spans d ! j)) \<longrightarrow>
                 snd (spans d2 ! j) ! i
                   = rebase_rules p (length_delta d n newstring) (snd (spans d ! j) ! i)))"
proof -
  let ?f = "rebase_rules p (length_delta d n newstring)"
  have m: "spans d2 = map_spans ?f (spans d)"
    using assms by (rule set_string_map_spans)
  show ?thesis
    unfolding m
    by (simp add: length_map_spans fst_nth_map_spans length_nth_map_spans nth_map_spans)
qed

theorem set_string_rebases_by_rules_witness:
  "set_string doc_three (Indexed Key_t 0) ''{{bb|c}}'' = Inr doc_three_grown
   \<and> get_span doc_three (Indexed Key_t 0) = Inr (4, 11)
   \<and> length_delta doc_three (Indexed Key_t 0) ''{{bb|c}}'' = 1
   \<and> snd (spans doc_three ! 2) = [(4, 11), (13, 18), (0, 13)]
   \<and> length (spans doc_three_grown) = length (spans doc_three)
   \<and> fst (spans doc_three_grown ! 2) = Key_t
   \<and> length (snd (spans doc_three_grown ! 2)) = 3
   \<and> snd (spans doc_three_grown ! 2) ! 0 = rebase_rules 4 1 (4, 11)
   \<and> snd (spans doc_three_grown ! 2) ! 1 = rebase_rules 4 1 (13, 18)
   \<and> snd (spans doc_three_grown ! 2) ! 2 = rebase_rules 4 1 (0, 13)
   \<and> snd (spans doc_three_grown ! 2) = [(4, 12), (14, 19), (0, 14)]
   \<and> set_string doc_three (Indexed Key_t 0) ''{{b}}'' = Inr doc_three_shrunk
   \<and> length_delta doc_three (Indexed Key_t 0) ''{{b}}'' = - 2
   \<and> snd (spans doc_three_shrunk ! 2) ! 0 = rebase_rules 4 (- 2) (4, 11)
   \<and> snd (spans doc_three_shrunk ! 2) ! 1 = rebase_rules 4 (- 2) (13, 18)
   \<and> snd (spans doc_three_shrunk ! 2) ! 2 = rebase_rules 4 (- 2) (0, 13)
   \<and> snd (spans doc_three_shrunk ! 2) = [(4, 9), (11, 16), (0, 11)]"
proof -
  let ?n = "Indexed Key_t 0"
  note g = set_string_rebases_by_rules[OF grow_doc_three get_span_doc_three,
      unfolded delta_grow_doc_three]
  note s = set_string_rebases_by_rules[OF shrink_doc_three get_span_doc_three,
      unfolded delta_shrink_doc_three]
  have t: "snd (spans doc_three ! 2) = [(4, 11), (13, 18), (0, 13)]"
    "fst (spans doc_three ! 2) = Key_t" "2 < length (spans doc_three)"
    by (simp_all add: spans_doc_three)
  from g have g0: "length (spans doc_three_grown) = length (spans doc_three)" by blast
  from g t(3) have g1: "fst (spans doc_three_grown ! 2) = fst (spans doc_three ! 2)"
    and g2: "length (snd (spans doc_three_grown ! 2)) = length (snd (spans doc_three ! 2))"
    by blast+
  from g t(3) have g3: "i < length (snd (spans doc_three ! 2)) \<Longrightarrow>
      snd (spans doc_three_grown ! 2) ! i = rebase_rules 4 1 (snd (spans doc_three ! 2) ! i)"
    for i by blast
  from s t(3) have s3: "i < length (snd (spans doc_three ! 2)) \<Longrightarrow>
      snd (spans doc_three_shrunk ! 2) ! i
        = rebase_rules 4 (- 2) (snd (spans doc_three ! 2) ! i)"
    for i by blast
  have v: "snd (spans doc_three_grown ! 2) = [(4, 12), (14, 19), (0, 14)]"
    "snd (spans doc_three_shrunk ! 2) = [(4, 9), (11, 16), (0, 11)]"
    by (simp_all add: doc_three_grown_def doc_three_shrunk_def)
  show ?thesis
    using grow_doc_three shrink_doc_three get_span_doc_three delta_grow_doc_three
      delta_shrink_doc_three t(1) g0 g1 g2 g3[of 0] g3[of 1] g3[of 2]
      s3[of 0] s3[of 1] s3[of 2] v
    by (simp add: t)
qed

text \<open>
  C10. When the span of an indexed node is empty, \<open>(p, p)\<close>, writing a non-empty
  string to the node puts the string into the buffer at \<open>p\<close> and moves every span
  that starts after \<open>p\<close> by the length of the string, but the span of the node itself
  stays \<open>(p, p)\<close>, so the node reads back as the empty string.
\<close>

theorem set_string_on_empty_span:
  assumes ok: "spans_ok d" and gs: "get_span d (Indexed k i) = Inr (p, p)"
    and ne: "newstring \<noteq> []"
  shows "\<exists>d2. set_string d (Indexed k i) newstring = Inr d2
       \<and> lststr d2 = take (nat p) (lststr d) @ newstring @ drop (nat p) (lststr d)
       \<and> get_span d2 (Indexed k i) = Inr (p, p)
       \<and> node_string d2 (Indexed k i) = Inr []
       \<and> (\<forall>j i. j < length (spans d) \<and> i < length (snd (spans d ! j))
               \<and> p < fst (snd (spans d ! j) ! i)
             \<longrightarrow> snd (spans d2 ! j) ! i =
                   (fst (snd (spans d ! j) ! i) + int (length newstring),
                    snd (snd (spans d ! j) ! i) + int (length newstring)))"
proof -
  let ?n = "Indexed k i"
  let ?b = "take (nat p) (lststr d) @ newstring @ drop (nat p) (lststr d)"
  let ?a = "int (length newstring)"
  let ?d2 = "d\<lparr>lststr := ?b, spans := map_spans (extend_span p ?a) (spans d)\<rparr>"
  from get_span_ok[OF ok gs] have b: "0 \<le> p" "p \<le> int (length (lststr d))"
    by (auto simp: span_ok_def)
  have ns: "node_string d ?n = Inr []"
    using gs by (simp add: node_string_def py_slice_def Let_def)
  have tk: "py_slice_to (lststr d) p = take (nat p) (lststr d)"
    using b by (intro py_slice_to_ok)
  have fr: "py_slice_from (lststr d) p = drop (nat p) (lststr d)"
    using b by (intro py_slice_from_ok)
  have gs1: "get_span (d\<lparr>lststr := ?b\<rparr>) ?n = Inr (p, p)" using gs by simp
  have pos: "0 < ?a" using ne by simp
  have st: "set_string d ?n newstring = Inr ?d2"
    unfolding set_string_def ns using gs gs1 pos tk fr
    by (simp add: Let_def extend_span_update_def del: get_span.simps)
  have own: "get_span ?d2 ?n = Inr (extend_span p ?a (p, p))"
    using gs by (rule get_span_map_spans)
  have own': "get_span ?d2 ?n = Inr (p, p)"
    using own by (simp add: extend_span_def)
  have rd: "node_string ?d2 ?n = Inr []"
    unfolding node_string_def own' by (simp add: py_slice_def Let_def)
  have later: "snd (spans ?d2 ! j) ! i' =
                   (fst (snd (spans d ! j) ! i') + ?a, snd (snd (spans d ! j) ! i') + ?a)"
    if "j < length (spans d)" "i' < length (snd (spans d ! j))"
      "p < fst (snd (spans d ! j) ! i')"
    for j i'
    using that by (simp add: nth_map_spans extend_span_def case_prod_unfold)
  show ?thesis
  proof (intro exI[of _ ?d2] conjI allI impI)
    show "set_string d ?n newstring = Inr ?d2" by (rule st)
    show "lststr ?d2 = ?b" by simp
    show "get_span ?d2 ?n = Inr (p, p)" by (rule own')
    show "node_string ?d2 ?n = Inr []" by (rule rd)
  next
    fix j i'
    assume "j < length (spans d) \<and> i' < length (snd (spans d ! j))
              \<and> p < fst (snd (spans d ! j) ! i')"
    then show "snd (spans ?d2 ! j) ! i' =
                   (fst (snd (spans d ! j) ! i') + ?a, snd (snd (spans d ! j) ! i') + ?a)"
      using later by blast
  qed
qed

theorem set_string_on_empty_span_witness:
  "spans_ok doc_ab
   \<and> get_span doc_ab (Indexed (Key_ta 0) 0) = Inr (3, 3)
   \<and> set_string doc_ab (Indexed (Key_ta 0) 0) ''|x'' = Inr doc_axb
   \<and> lststr doc_axb = ''{{a|x}}{{b}}''
   \<and> get_span doc_axb (Indexed (Key_ta 0) 0) = Inr (3, 3)
   \<and> node_string doc_axb (Indexed (Key_ta 0) 0) = Inr []
   \<and> snd (spans doc_ab ! 2) ! 1 = (5, 10)
   \<and> snd (spans doc_axb ! 2) ! 1 = (7, 12)"
proof -
  let ?n = "Indexed (Key_ta 0) 0"
  have h1: "spans_ok doc_ab" by code_simp
  have h2: "get_span doc_ab ?n = Inr (3, 3)" by code_simp
  have h3: "''|x'' \<noteq> []" by simp
  have ev: "set_string doc_ab ?n ''|x'' = Inr doc_axb"
    by code_simp
  from set_string_on_empty_span[OF h1 h2 h3] ev
  have c: "get_span doc_axb ?n = Inr (3, 3) \<and> node_string doc_axb ?n = Inr []
     \<and> (\<forall>j i. j < length (spans doc_ab) \<and> i < length (snd (spans doc_ab ! j))
               \<and> 3 < fst (snd (spans doc_ab ! j) ! i)
             \<longrightarrow> snd (spans doc_axb ! j) ! i =
                   (fst (snd (spans doc_ab ! j) ! i) + int (length ''|x''),
                    snd (snd (spans doc_ab ! j) ! i) + int (length ''|x'')))"
    by auto
  then have "2 < length (spans doc_ab) \<and> 1 < length (snd (spans doc_ab ! 2))
               \<and> 3 < fst (snd (spans doc_ab ! 2) ! 1)
             \<longrightarrow> snd (spans doc_axb ! 2) ! 1 =
                   (fst (snd (spans doc_ab ! 2) ! 1) + int (length ''|x''),
                    snd (snd (spans doc_ab ! 2) ! 1) + int (length ''|x''))"
    by blast
  then have c4: "snd (spans doc_axb ! 2) ! 1 = (7, 12)"
    by (simp add: doc_ab_def)
  have c0: "snd (spans doc_ab ! 2) ! 1 = (5, 10)" by (simp add: doc_ab_def)
  have c1: "lststr doc_axb = ''{{a|x}}{{b}}''" by (simp add: doc_axb_def)
  show ?thesis using h1 h2 ev c c0 c1 c4 by blast
qed

text \<open>
  C4. For the text \<open>{{{x|default}}}\<close> the tokenizer records one parameter span,
  \<open>(0, 15)\<close>, the whole text, and no template or parser function span; the
  parameter has the name \<open>x\<close>, the pipe \<open>|\<close> and the default \<open>default\<close>.
\<close>

theorem parameter_with_default:
  "get_spans ''{{{x|default}}}'' =
     [(Key_p, [(0, 15)]), (Key_pf, []), (Key_t, []), (Key_wl, []), (Key_c, []), (Key_nw, [])]
   \<and> length ''{{{x|default}}}'' = 15
   \<and> parameters doc_parameter Root = Inr [Indexed Key_p 0]
   \<and> templates doc_parameter Root = Inr []
   \<and> parser_functions doc_parameter Root = Inr []
   \<and> node_string doc_parameter (Indexed Key_p 0) = Inr ''{{{x|default}}}''
   \<and> parameter_name doc_parameter 0 = Inr ''x''
   \<and> parameter_pipe doc_parameter 0 = Inr ''|''
   \<and> parameter_default doc_parameter 0 = Inr ''default''"
  by code_simp

text \<open>
  C5. For the text \<open>{{a|{{b|c}}}}\<close> the tokenizer records two template spans, the
  inner one first. The outer template has the name \<open>a\<close> and one argument, which has
  no equal sign (it is positional, with the name \<open>1\<close>) and the value \<open>{{b|c}}\<close>: the
  pipe inside the inner template does not split. The inner template has the name
  \<open>b\<close> and one positional argument with the value \<open>c\<close>.
\<close>

theorem nested_templates:
  "spans doc_nested =
     [(Key_p, []), (Key_pf, []), (Key_t, [(4, 11), (0, 13)]), (Key_wl, []), (Key_c, []),
      (Key_nw, [])]
   \<and> templates doc_nested Root = Inr [Indexed Key_t 0, Indexed Key_t 1]
   \<and> node_string doc_nested (Indexed Key_t 1) = Inr ''{{a|{{b|c}}}}''
   \<and> template_name doc_nested 1 = Inr ''a''
   \<and> template_arguments doc_nested 1 = Inr (doc_nested_outer, [Indexed (Key_ta 1) 0])
   \<and> argument_equal_sign doc_nested_outer (Key_ta 1) 0 = Inr []
   \<and> argument_name doc_nested_outer (Key_ta 1) 0 = Inr ''1''
   \<and> argument_value doc_nested_outer (Key_ta 1) 0 = Inr ''{{b|c}}''
   \<and> node_string doc_nested_outer (Indexed Key_t 0) = Inr ''{{b|c}}''
   \<and> template_name doc_nested_outer 0 = Inr ''b''
   \<and> template_arguments doc_nested_outer 0 = Inr (doc_nested_inner, [Indexed (Key_ta 0) 0])
   \<and> argument_equal_sign doc_nested_inner (Key_ta 0) 0 = Inr []
   \<and> argument_name doc_nested_inner (Key_ta 0) 0 = Inr ''1''
   \<and> argument_value doc_nested_inner (Key_ta 0) 0 = Inr ''c''"
  by code_simp

text \<open>
  C7, as the specification states it, fails: on the document \<open>{{a|1}}\<close> the span of
  the argument is \<open>(3, 5)\<close>, and after the name of the template is set to \<open>alpha\<close> it
  is \<open>(7, 9)\<close>, not \<open>(3 + 3, 5 + 3)\<close>: \<open>alpha\<close> is four characters longer than \<open>a\<close>.
\<close>

theorem rename_shift_is_not_three:
  "template_arguments (WikiText ''{{a|1}}'') 0 = Inr (doc_a1, [Indexed (Key_ta 0) 0])
   \<and> get_span doc_a1 (Indexed (Key_ta 0) 0) = Inr (3, 5)
   \<and> template_set_name doc_a1 0 ''alpha'' = Inr doc_alpha1
   \<and> get_span doc_alpha1 (Indexed (Key_ta 0) 0) \<noteq> Inr (3 + 3, 5 + 3)"
  by code_simp

text \<open>
  C7, amended. On the document \<open>{{a|1}}\<close>, setting the name of the template to
  \<open>alpha\<close> gives the buffer \<open>{{alpha|1}}\<close>; afterwards the template still has the one
  argument, its value is still \<open>1\<close>, and its span has moved right by 4, from \<open>(3, 5)\<close>
  to \<open>(7, 9)\<close>. The end of the span of the template itself has moved by 4 as well;
  the other categories have no span, before and after.
\<close>

theorem rename_shifts_argument_by_four:
  "template_arguments (WikiText ''{{a|1}}'') 0 = Inr (doc_a1, [Indexed (Key_ta 0) 0])
   \<and> argument_value doc_a1 (Key_ta 0) 0 = Inr ''1''
   \<and> get_span doc_a1 (Indexed (Key_ta 0) 0) = Inr (3, 5)
   \<and> template_set_name doc_a1 0 ''alpha'' = Inr doc_alpha1
   \<and> lststr doc_alpha1 = ''{{alpha|1}}''
   \<and> template_arguments doc_alpha1 0 = Inr (doc_alpha1, [Indexed (Key_ta 0) 0])
   \<and> argument_value doc_alpha1 (Key_ta 0) 0 = Inr ''1''
   \<and> get_span doc_alpha1 (Indexed (Key_ta 0) 0) = Inr (3 + 4, 5 + 4)
   \<and> spans doc_a1 =
        [(Key_p, []), (Key_pf, []), (Key_t, [(0, 7)]), (Key_wl, []), (Key_c, []),
         (Key_nw, []), (Key_ta 0, [(3, 5)])]
   \<and> spans doc_alpha1 =
        [(Key_p, []), (Key_pf, []), (Key_t, [(0, 11)]), (Key_wl, []), (Key_c, []),
         (Key_nw, []), (Key_ta 0, [(7, 9)])]"
  by code_simp

text \<open>
  C8, as the specification states it, fails: the title of the section of the header
  line \<open>== Title ==\<close> is the text between the equal signs with its spaces, not
  \<open>Title\<close>.
\<close>

theorem section_title_is_not_stripped:
  "sections doc_title Root = Inr (doc_title_sections, [Indexed Key_s 0, Indexed Key_s 1])
   \<and> section_title doc_title_sections 1 \<noteq> Inr ''Title''"
  by code_simp

text \<open>
  C8, amended. For the document of the two lines \<open>== Title ==\<close> and \<open>Body\<close>, the
  first section is the lead section, with level 0 and the contents \<open>''\<close>, and the
  second has level 2, the title \<open>Title\<close> with a space on each side, and the contents
  \<open>Body\<close>.
\<close>

theorem sections_of_title_and_body:
  "sections doc_title Root = Inr (doc_title_sections, [Indexed Key_s 0, Indexed Key_s 1])
   \<and> section_level doc_title_sections 0 = Inr 0
   \<and> section_contents doc_title_sections 0 = Inr []
   \<and> section_level doc_title_sections 1 = Inr 2
   \<and> section_title doc_title_sections 1 = Inr '' Title ''
   \<and> section_contents doc_title_sections 1 = Inr ''Body''"
  by code_simp

text \<open>
  C9. Setting the title of a lead section raises \<open>RuntimeError\<close>, and setting the name
  of a template to the empty string is accepted. But the setter of the title is not
  the only setter that fails: the setter of \<open>Argument.value\<close> raises \<open>IndexError\<close> on
  an argument whose text is empty, as that of \<open>Argument('')\<close> and that of the argument
  of \<open>{{alpha|1}}\<close> after it was set to the empty string.
\<close>

theorem argument_value_setter_raises:
  "section_set_title doc_title_sections 0 ''New'' = Inl RuntimeError
   \<and> template_set_name doc_a1 0 [] =
        Inr \<lparr>lststr = ''{{|1}}'',
             spans = [(Key_p, []), (Key_pf, []), (Key_t, [(0, 6)]), (Key_wl, []), (Key_c, []),
                      (Key_nw, []), (Key_ta 0, [(2, 4)])]\<rparr>
   \<and> argument_set_value (Argument []) Key_a (- 1) ''x'' = Inl IndexError
   \<and> set_string doc_alpha1 (Indexed (Key_ta 0) 0) [] = Inr doc_alpha
   \<and> argument_set_value doc_alpha (Key_ta 0) 0 ''2'' = Inl IndexError"
  by code_simp




text \<open>
  C6. One step of the loop of \<open>sections\<close>, for a new header section with the span
  \<open>mspan\<close>, when the sections built so far are the lead section and \<open>prior\<close>, all at
  different indices of the list of section spans. The new section is appended. The
  prior sections are scanned in order: each one before the first whose level is not
  lower than the level of the new section gets the end of the new section as its
  end; every other span of the list, that of the lead section included, is unchanged.
\<close>

theorem new_section_extends_lower_levels:
  assumes step: "section_step buf selfstart (sspans, lead # prior) m = (sspans2, sections2)"
    and mspan: "mspan = (fst (match_span m) + selfstart, snd (match_span m) + selfstart)"
    and sspans1: "sspans1 = append_new sspans mspan"
    and index: "index = index_of sspans1 mspan"
    and dist: "distinct (prior @ [index])"
    and valid: "\<forall>i \<in> set prior. i < length sspans1"
    and lead: "lead \<notin> set prior" "lead < length sspans1"
  shows "sections2 = lead # prior @ [index]
       \<and> length sspans2 = length sspans1
       \<and> sspans1 ! index = mspan
       \<and> (\<forall>i < length sspans1.
             sspans2 ! i =
               (if i \<in> set (takeWhile
                     (\<lambda>j. level_at buf sspans1 j < level_at buf sspans1 index) prior)
                then (fst (sspans1 ! i), snd mspan)
                else sspans1 ! i))
       \<and> sspans2 ! lead = sspans1 ! lead"
proof -
  let ?P = "\<lambda>j. level_at buf sspans1 j < level_at buf sspans1 index"
  have mem: "mspan \<in> set sspans1" unfolding sspans1 by (rule mem_append_new)
  have ix: "index < length sspans1" unfolding index using mem by (rule index_of_less)
  have at: "sspans1 ! index = mspan" unfolding index using mem by (rule nth_index_of)
  from step have s2: "sections2 = lead # prior @ [index]"
    and c: "sspans2 = cascade buf (level_at buf sspans1 index) (snd mspan) sspans1
                        (prior @ [index])"
    by (auto simp: section_step_def Let_def mspan sspans1 index)
  have tw: "takeWhile ?P (prior @ [index]) = takeWhile ?P prior"
  proof (cases "\<forall>x \<in> set prior. ?P x")
    case True
    then have a: "takeWhile ?P prior = prior"
      using takeWhile_eq_all_conv[of ?P prior] by blast
    from True have b: "takeWhile ?P (prior @ [index]) = prior @ takeWhile ?P [index]"
      by (intro takeWhile_append2) simp
    have c: "takeWhile ?P [index] = []" by simp
    show ?thesis unfolding a b c by simp
  next
    case False
    then obtain x where "x \<in> set prior" "\<not> ?P x" by blast
    then show ?thesis by (rule takeWhile_append1)
  qed
  have all: "\<forall>x \<in> set (prior @ [index]). x < length sspans1" using valid ix by auto
  have nth: "sspans2 ! i =
               (if i \<in> set (takeWhile ?P prior) then (fst (sspans1 ! i), snd mspan)
                else sspans1 ! i)" if "i < length sspans1" for i
    using cascade_nth[OF dist all that, of buf "level_at buf sspans1 index" "snd mspan"]
    unfolding c tw .
  have "lead \<notin> set (takeWhile ?P prior)" using lead(1) by (auto dest: set_takeWhileD)
  with nth[OF lead(2)] have l: "sspans2 ! lead = sspans1 ! lead" by simp
  have len: "length sspans2 = length sspans1" unfolding c by simp
  show ?thesis using s2 len at nth l by blast
qed

theorem new_section_extends_lower_levels_witness:
  "section_step headers_text 0 (headers_before_D, [0, 1, 2, 3]) (30, 39, [])
     = (headers_after_D, [0, 1, 2, 3, 4])
   \<and> append_new headers_before_D (30, 39) = headers_before_D @ [(30, 39)]
   \<and> index_of (headers_before_D @ [(30, 39)]) (30, 39) = 4
   \<and> map (level_at headers_text (headers_before_D @ [(30, 39)])) [1, 2, 3, 4] = [2, 3, 2, 3]
   \<and> headers_after_D ! 0 = (0, 0)
   \<and> headers_after_D ! 1 = (0, 39)
   \<and> headers_after_D ! 2 = (10, 22)
   \<and> headers_after_D ! 3 = (22, 30)
   \<and> sections (WikiText headers_text) Root =
        Inr (\<lparr>lststr = headers_text,
              spans = [(Key_p, []), (Key_pf, []), (Key_t, []), (Key_wl, []), (Key_c, []),
                       (Key_nw, []), (Key_s, headers_after_D)]\<rparr>,
             map (Indexed Key_s) [0, 1, 2, 3, 4])"
proof -
  let ?s1 = "headers_before_D @ [(30, 39)]"
  have step: "section_step headers_text 0 (headers_before_D, [0, 1, 2, 3]) (30, 39, [])
                = (headers_after_D, [0, 1, 2, 3, 4])"
    by code_simp
  have mspan: "(30, 39) = (fst (match_span (30, 39, [])) + 0, snd (match_span (30, 39, [])) + 0)"
    by code_simp
  have s1: "?s1 = append_new headers_before_D (30, 39)" by code_simp
  have ix: "4 = index_of ?s1 (30, 39)" by code_simp
  have dist: "distinct ([1, 2, 3] @ [4 :: nat])" by simp
  have valid: "\<forall>i \<in> set [1, 2, 3 :: nat]. i < length ?s1"
    by (simp add: headers_before_D_def)
  have lead: "(0 :: nat) \<notin> set [1, 2, 3]" "0 < length ?s1" by simp_all
  have lv: "map (level_at headers_text ?s1) [1, 2, 3, 4] = [2, 3, 2, 3]" by code_simp
  have tw: "takeWhile (\<lambda>j. level_at headers_text ?s1 j < level_at headers_text ?s1 4) [1, 2, 3]
              = [1]"
    by code_simp
  note c = new_section_extends_lower_levels[OF step mspan s1 ix dist valid lead]
  from c have n: "\<forall>i < length ?s1. headers_after_D ! i =
            (if i \<in> set [1] then (fst (?s1 ! i), snd (30 :: int, 39 :: int)) else ?s1 ! i)"
    unfolding tw by blast
  have len: "length ?s1 = 5" by (simp add: headers_before_D_def)
  from n len have "headers_after_D ! 0 = ?s1 ! 0" "headers_after_D ! 1 = (fst (?s1 ! 1), 39)"
    "headers_after_D ! 2 = ?s1 ! 2" "headers_after_D ! 3 = ?s1 ! 3"
    by simp_all
  then have r: "headers_after_D ! 0 = (0, 0)" "headers_after_D ! 1 = (0, 39)"
    "headers_after_D ! 2 = (10, 22)" "headers_after_D ! 3 = (22, 30)"
    by (simp_all add: headers_before_D_def)
  have all: "sections (WikiText headers_text) Root =
        Inr (\<lparr>lststr = headers_text,
              spans = [(Key_p, []), (Key_pf, []), (Key_t, []), (Key_wl, []), (Key_c, []),
                       (Key_nw, []), (Key_s, headers_after_D)]\<rparr>,
             map (Indexed Key_s) [0, 1, 2, 3, 4])"
    by code_simp
  show ?thesis using step s1[symmetric] ix[symmetric] lv r all by simp
qed

end
